theory Spec2Isabelle
  imports Main
begin

section \<open>The build command (class BuildCommand, garden-service/src/docs/commands.ts)\<close>

text \<open>
  A module as the build command reads it: \<^verbatim>\<open>m.name\<close> is the only field the command
  touches.
\<close>

record Module =
  name :: string

text \<open>The node types of the configuration graph (\<^verbatim>\<open>nodeType: "build"\<close> and its siblings).\<close>

datatype node_type = Build | Deploy | Run | Test

text \<open>
  The value \<^verbatim>\<open>getDependants\<close> returns; the command reads its \<^verbatim>\<open>build\<close> field only.
\<close>

record DependencyRelations =
  build :: "Module list"

text \<open>
  The object handed to \<^verbatim>\<open>processModules\<close> (without \<^verbatim>\<open>garden\<close> and the loggers).
  \<^verbatim>\<open>processModules\<close> is defined elsewhere in the repository, so the command is
  modelled up to this call: what it passes on is what the theorems are about.
\<close>

record ('g, 't) ProcessModulesParams =
  graph :: 'g
  modules :: "Module list"
  watch :: bool
  initialTasks :: "'t list"
  changeHandler :: "'g \<Rightarrow> Module \<Rightarrow> 't list"

text \<open>
  The object handed to \<^verbatim>\<open>BuildTask.factory\<close> (without \<^verbatim>\<open>garden\<close> and \<^verbatim>\<open>log\<close>).
  The factory is defined elsewhere in the repository: it is a parameter \<open>factory\<close>
  that returns a list of tasks, which the command flattens.
\<close>

record 'g BuildTaskParams =
  graph :: 'g
  module :: Module
  force :: bool

text \<open>
  \<^verbatim>\<open>[module].concat(deps.build).filter((m) => moduleNames.includes(m.name))
      .map((m) => BuildTask.factory({ garden, graph, log, module: m, force: true }))\<close>
  with \<^verbatim>\<open>deps = await newGraph.getDependants({ nodeType: "build", name: module.name,
  recursive: true })\<close>: the arguments of the factory calls, in order. \<open>graph\<close> is the
  variable of the enclosing \<^verbatim>\<open>action\<close>, \<open>newGraph\<close> the handler's own parameter.
\<close>

definition changeHandlerCalls ::
  "('g \<Rightarrow> node_type \<Rightarrow> string \<Rightarrow> bool \<Rightarrow> DependencyRelations) \<Rightarrow> 'g \<Rightarrow> string list
     \<Rightarrow> 'g \<Rightarrow> Module \<Rightarrow> 'g BuildTaskParams list" where
  "changeHandlerCalls getDependants graph' moduleNames newGraph module' =
     (let deps = getDependants newGraph Build (name module') True
      in map (\<lambda>m. \<lparr>graph = graph', module = m, force = True\<rparr>)
           (filter (\<lambda>m. name m \<in> set moduleNames) ([module'] @ build deps)))"

text \<open>\<^verbatim>\<open>return flatten(await Promise.all(tasks))\<close>\<close>

definition BuildCommand_changeHandler ::
  "('g BuildTaskParams \<Rightarrow> 't list)
     \<Rightarrow> ('g \<Rightarrow> node_type \<Rightarrow> string \<Rightarrow> bool \<Rightarrow> DependencyRelations) \<Rightarrow> 'g \<Rightarrow> string list
     \<Rightarrow> 'g \<Rightarrow> Module \<Rightarrow> 't list" where
  "BuildCommand_changeHandler factory getDependants graph' moduleNames newGraph module' =
     concat (map factory (changeHandlerCalls getDependants graph' moduleNames newGraph module'))"

text \<open>
  \<^verbatim>\<open>Bluebird.map(modules, (module) => BuildTask.factory({ garden, graph, log, module,
  force: opts.force }))\<close>: the arguments of the factory calls of the first round.
\<close>

definition initialTaskCalls :: "'g \<Rightarrow> Module list \<Rightarrow> bool \<Rightarrow> 'g BuildTaskParams list" where
  "initialTaskCalls graph' modules' optsForce =
     map (\<lambda>m. \<lparr>graph = graph', module = m, force = optsForce\<rparr>) modules'"

text \<open>
  \<^verbatim>\<open>BuildCommand.action\<close>, from \<^verbatim>\<open>garden.getConfigGraph\<close> (whose result is the
  argument \<open>graph'\<close>) to the call of \<^verbatim>\<open>processModules\<close>. \<open>argsModules\<close> is
  \<^verbatim>\<open>args.modules\<close> (\<open>None\<close> when the caller names no module), \<open>getModules\<close> is
  \<^verbatim>\<open>graph.getModules({ names })\<close>.
\<close>

definition BuildCommand_action ::
  "('g BuildTaskParams \<Rightarrow> 't list)
     \<Rightarrow> ('g \<Rightarrow> string list option \<Rightarrow> Module list)
     \<Rightarrow> ('g \<Rightarrow> node_type \<Rightarrow> string \<Rightarrow> bool \<Rightarrow> DependencyRelations)
     \<Rightarrow> 'g \<Rightarrow> string list option \<Rightarrow> bool \<Rightarrow> bool \<Rightarrow> ('g, 't) ProcessModulesParams" where
  "BuildCommand_action factory getModules getDependants graph' argsModules optsForce optsWatch =
     (let modules' = getModules graph' argsModules;
          moduleNames = map name modules';
          initialTasks' = concat (map factory (initialTaskCalls graph' modules' optsForce))
      in \<lparr>ProcessModulesParams.graph = graph',
          modules = modules',
          watch = optsWatch,
          initialTasks = initialTasks',
          changeHandler =
            BuildCommand_changeHandler factory getDependants graph' moduleNames\<rparr>)"

section \<open>Enterprise initialisation (garden-service/src/enterprise/init.ts)\<close>

text \<open>
  Optional strings (\<^verbatim>\<open>string | undefined\<close>, \<^verbatim>\<open>string | null\<close>) are
  \<open>string option\<close>. The source tests them by JavaScript truthiness
  (\<^verbatim>\<open>if (clientAuthToken)\<close>, \<^verbatim>\<open>!domain\<close>): an absent value and the empty string are
  both false.
\<close>

definition truthy :: "string option \<Rightarrow> bool" where
  "truthy v = (case v of None \<Rightarrow> False | Some s \<Rightarrow> s \<noteq> [])"

type_synonym StringMap = "string \<rightharpoonup> string"

text \<open>The two fields of the project configuration that \<^verbatim>\<open>enterpriseInit\<close> reads
  (\<^verbatim>\<open>const { id: projectId, domain } = projectConfig\<close>).\<close>

record ProjectConfig =
  projectId :: "string option"
  domain :: "string option"

text \<open>The two texts pushed onto \<^verbatim>\<open>errorMessages\<close>.\<close>

datatype error_message = DomainNotSet | ProjectIdNotSet

text \<open>
  An error of \<^verbatim>\<open>enterpriseInit\<close>: the \<^verbatim>\<open>ConfigurationError\<close> it throws itself, or
  the error with which one of the calls it awaits was rejected, which passes through
  unchanged since no call is inside a \<^verbatim>\<open>try\<close>.
\<close>

datatype 'e init_error = ConfigurationError "error_message list" | Rejected 'e

text \<open>The argument of \<^verbatim>\<open>getSecrets\<close> (without the logger).\<close>

record GetSecretsParams =
  secretsProjectId :: string
  enterpriseDomain :: string
  secretsAuthToken :: string
  environmentName :: string

text \<open>What the function does besides returning: the calls to the enterprise backend
  and the warning it logs, in order.\<close>

datatype init_event =
    CheckClientAuthToken string string
  | GetSecrets GetSecretsParams
  | LogWarn

record EnterpriseInitResult =
  clientAuthToken :: "string option"
  secrets :: StringMap

text \<open>
  \<^verbatim>\<open>enterpriseInit\<close>. The three calls it awaits are defined elsewhere in the
  repository and are parameters, each of which resolves (\<open>Inr\<close>) or is rejected with
  an error (\<open>Inl\<close>): \<open>readAuthToken\<close> is the outcome of
  \<^verbatim>\<open>await readAuthToken(log)\<close>, \<open>checkClientAuthToken\<close> and \<open>getSecrets\<close> are the
  two imported functions of those names. A throw of \<^verbatim>\<open>enterpriseInit\<close> is \<open>Inl\<close>;
  the events are returned next to the result. \<open>the\<close> reads an optional value only
  where the enclosing test has found it truthy.
\<close>

definition enterpriseInit ::
  "('e + string option) \<Rightarrow> (string \<Rightarrow> string \<Rightarrow> 'e + bool)
     \<Rightarrow> (GetSecretsParams \<Rightarrow> 'e + StringMap) \<Rightarrow> ProjectConfig \<Rightarrow> string
     \<Rightarrow> init_event list \<times> ('e init_error + EnterpriseInitResult)" where
  "enterpriseInit readAuthToken checkClientAuthToken getSecrets projectConfig environmentName' =
     (case readAuthToken of
        Inl e \<Rightarrow> ([], Inl (Rejected e))
      | Inr clientAuthToken' \<Rightarrow>
          (if truthy clientAuthToken' then
             (if \<not> truthy (domain projectConfig) \<or> \<not> truthy (projectId projectConfig) then
                (let errorMessages =
                       (if \<not> truthy (domain projectConfig) then [DomainNotSet] else [])
                       @ (if \<not> truthy (projectId projectConfig) then [ProjectIdNotSet] else [])
                 in if length errorMessages > 0
                    then ([], Inl (ConfigurationError errorMessages))
                    else ([], Inr \<lparr>clientAuthToken = clientAuthToken', secrets = Map.empty\<rparr>))
              else
                (let token = the clientAuthToken';
                     domain' = the (domain projectConfig)
                 in case checkClientAuthToken token domain' of
                      Inl e \<Rightarrow> ([CheckClientAuthToken token domain'], Inl (Rejected e))
                    | Inr tokenIsValid \<Rightarrow>
                        if tokenIsValid then
                          (let params = \<lparr>secretsProjectId = the (projectId projectConfig),
                                         enterpriseDomain = domain',
                                         secretsAuthToken = token,
                                         environmentName = environmentName'\<rparr>
                           in case getSecrets params of
                                Inl e \<Rightarrow>
                                  ([CheckClientAuthToken token domain', GetSecrets params],
                                   Inl (Rejected e))
                              | Inr secrets' \<Rightarrow>
                                  ([CheckClientAuthToken token domain', GetSecrets params],
                                   Inr \<lparr>clientAuthToken = clientAuthToken',
                                        secrets = secrets'\<rparr>))
                        else
                          ([CheckClientAuthToken token domain', LogWarn],
                           Inr \<lparr>clientAuthToken = clientAuthToken', secrets = Map.empty\<rparr>)))
           else ([], Inr \<lparr>clientAuthToken = clientAuthToken', secrets = Map.empty\<rparr>)))"

text \<open>
  Example inputs: a backend that holds one secret, whose value is the project id, a
  backend that cannot be reached, and a validity check that accepts one token.
\<close>

definition exampleSecrets :: "GetSecretsParams \<Rightarrow> string + StringMap" where
  "exampleSecrets params = Inr [''key'' \<mapsto> secretsProjectId params]"

definition unreachableSecrets :: "GetSecretsParams \<Rightarrow> string + StringMap" where
  "unreachableSecrets params = Inl ''backend unreachable''"

definition tokenIs :: "string \<Rightarrow> string \<Rightarrow> string \<Rightarrow> string + bool" where
  "tokenIs valid token domain' = Inr (token = valid)"

section \<open>The kubectl wrapper (garden-service/src/plugins/kubernetes/kubectl.ts)\<close>

text \<open>\<^verbatim>\<open>this.provider.config\<close>: the two fields \<^verbatim>\<open>prepareArgs\<close> reads.\<close>

record ProviderConfig =
  config_context :: string
  config_kubeconfig :: "string option"

text \<open>\<^verbatim>\<open>KubectlParams\<close>; the record is extensible, as the interface is
  (\<^verbatim>\<open>KubectlSpawnParams\<close> adds \<^verbatim>\<open>tty\<close> and \<^verbatim>\<open>wait\<close>).\<close>

record KubectlParams =
  namespace :: "string option"
  configPath :: "string option"
  args :: "string list"

text \<open>\<^verbatim>\<open>prepareArgs\<close>: \<open>opts\<close> grows by \<^verbatim>\<open>push\<close>, then
  \<^verbatim>\<open>params.args = opts.concat(args)\<close>. The updated \<open>params\<close> is returned.\<close>

definition prepareArgs ::
  "ProviderConfig \<Rightarrow> 'a KubectlParams_scheme \<Rightarrow> 'a KubectlParams_scheme" where
  "prepareArgs config params =
     (let opts0 = [''--context='' @ config_context config];
          opts1 = (case config_kubeconfig config of
                     Some k \<Rightarrow> if k \<noteq> [] then opts0 @ [''--kubeconfig='' @ k] else opts0
                   | None \<Rightarrow> opts0);
          opts2 = (case namespace params of
                     Some n \<Rightarrow> if n \<noteq> [] then opts1 @ [''--namespace='' @ n] else opts1
                   | None \<Rightarrow> opts1);
          opts3 = (case configPath params of
                     Some p \<Rightarrow> if p \<noteq> [] then opts2 @ [''--kubeconfig='' @ p] else opts2
                   | None \<Rightarrow> opts2)
      in params\<lparr>args := opts3 @ args params\<rparr>)"

text \<open>The methods of the base class \<^verbatim>\<open>PluginTool\<close>, which run the binary with
  \<^verbatim>\<open>params.args\<close>. The base class is defined elsewhere in the repository: a call of
  \<^verbatim>\<open>super.m(params)\<close> is the pair of the method and the parameters it receives.\<close>

datatype tool_method = Stdout | Exec | Spawn | SpawnAndWait

definition Kubectl_stdout ::
  "ProviderConfig \<Rightarrow> 'a KubectlParams_scheme \<Rightarrow> tool_method \<times> 'a KubectlParams_scheme" where
  "Kubectl_stdout config params = (Stdout, prepareArgs config params)"

definition Kubectl_exec ::
  "ProviderConfig \<Rightarrow> 'a KubectlParams_scheme \<Rightarrow> tool_method \<times> 'a KubectlParams_scheme" where
  "Kubectl_exec config params = (Exec, prepareArgs config params)"

definition Kubectl_spawn ::
  "ProviderConfig \<Rightarrow> 'a KubectlParams_scheme \<Rightarrow> tool_method \<times> 'a KubectlParams_scheme" where
  "Kubectl_spawn config params = (Spawn, prepareArgs config params)"

definition Kubectl_spawnAndWait ::
  "ProviderConfig \<Rightarrow> 'a KubectlParams_scheme \<Rightarrow> tool_method \<times> 'a KubectlParams_scheme" where
  "Kubectl_spawnAndWait config params = (SpawnAndWait, prepareArgs config params)"

text \<open>\<^verbatim>\<open>json\<close>: push \<^verbatim>\<open>--output=json\<close> unless the arguments include it, then
  \<^verbatim>\<open>this.stdout(params)\<close>.\<close>

definition Kubectl_json ::
  "ProviderConfig \<Rightarrow> 'a KubectlParams_scheme \<Rightarrow> tool_method \<times> 'a KubectlParams_scheme" where
  "Kubectl_json config params =
     (let params' = (if ''--output=json'' \<in> set (args params) then params
                     else params\<lparr>args := args params @ [''--output=json'']\<rparr>)
      in Kubectl_stdout config params')"

text \<open>The options \<^verbatim>\<open>prepareArgs\<close> may add, each as a list of zero or one argument.\<close>

definition optionArg :: "string \<Rightarrow> string option \<Rightarrow> string list" where
  "optionArg flag v = (case v of None \<Rightarrow> [] | Some s \<Rightarrow> if s \<noteq> [] then [flag @ s] else [])"

section \<open>The workflow command (class RunWorkflowCommand, garden-service/src/docs/commands.ts)\<close>

text \<open>A step of a workflow: \<^verbatim>\<open>step.command\<close> and \<^verbatim>\<open>step.description\<close>.\<close>

record WorkflowStepSpec =
  command :: "string list"
  description :: "string option"

text \<open>
  An entry of \<^verbatim>\<open>getStepCommandConfigs()\<close>. \<open>cmdAction\<close> stands for
  \<^verbatim>\<open>parseCliArgs(rest, config.args, config.opts)\<close> followed by
  \<^verbatim>\<open>new config.cmdClass().action(...)\<close>, both defined elsewhere in the repository: it takes
  the remaining words of the command and the state of the project (\<open>'s\<close>) and either
  throws (\<open>Inl\<close>) or returns the new state.
\<close>

record ('s, 'e) StepCommandConfig =
  prefix :: "string list"
  cmdAction :: "string list \<Rightarrow> 's \<Rightarrow> 'e + 's"

text \<open>\<^verbatim>\<open>config.prefix\<close> on the \<^verbatim>\<open>undefined\<close> that \<^verbatim>\<open>find\<close> returns when no entry
  matches is a \<^verbatim>\<open>TypeError\<close>.\<close>

datatype 'e step_error = TypeError | CommandError 'e

definition runStepCommand ::
  "('s, 'e) StepCommandConfig list \<Rightarrow> string list \<Rightarrow> 's \<Rightarrow> 'e step_error + 's" where
  "runStepCommand stepCommandConfigs commandSpec s =
     (case find (\<lambda>c. prefix c = take (length (prefix c)) commandSpec) stepCommandConfigs of
        None \<Rightarrow> Inl TypeError
      | Some config \<Rightarrow>
          (let rest = drop (length (prefix config)) commandSpec
           in case cmdAction config rest s of
                Inl e \<Rightarrow> Inl (CommandError e)
              | Inr s' \<Rightarrow> Inr s'))"

text \<open>What the loop prints and runs, in order.\<close>

datatype workflow_event =
    PrintStepHeader nat nat "string option"
  | RunStepCommand "string list"
  | PrintStepDuration nat nat

text \<open>
  The loop \<^verbatim>\<open>for (const [index, step] of steps.entries())\<close> of
  \<^verbatim>\<open>RunWorkflowCommand.action\<close>, from step \<open>index\<close> on: \<open>stepCount\<close> is
  \<^verbatim>\<open>steps.length\<close>, \<open>s\<close> the state of the project. The \<^verbatim>\<open>catch\<close> rethrows.
\<close>

fun runSteps ::
  "('s, 'e) StepCommandConfig list \<Rightarrow> nat \<Rightarrow> nat \<Rightarrow> WorkflowStepSpec list \<Rightarrow> 's
     \<Rightarrow> workflow_event list \<times> ('e step_error + 's)" where
  "runSteps stepCommandConfigs index stepCount [] s = ([], Inr s)"
| "runSteps stepCommandConfigs index stepCount (step # steps) s =
     (case runStepCommand stepCommandConfigs (command step) s of
        Inl err \<Rightarrow>
          ([PrintStepHeader index stepCount (description step), RunStepCommand (command step)],
           Inl err)
      | Inr s' \<Rightarrow>
          (let (events, result) = runSteps stepCommandConfigs (Suc index) stepCount steps s'
           in ([PrintStepHeader index stepCount (description step), RunStepCommand (command step),
                PrintStepDuration index stepCount] @ events,
               result)))"

definition RunWorkflowCommand_action ::
  "('s, 'e) StepCommandConfig list \<Rightarrow> WorkflowStepSpec list \<Rightarrow> 's
     \<Rightarrow> workflow_event list \<times> ('e step_error + 's)" where
  "RunWorkflowCommand_action stepCommandConfigs steps s =
     runSteps stepCommandConfigs 0 (length steps) steps s"

text \<open>The commands of the steps that were run, in the order they were run.\<close>

definition stepsRun :: "workflow_event list \<Rightarrow> string list list" where
  "stepsRun events = concat (map (\<lambda>e. case e of RunStepCommand c \<Rightarrow> [c] | _ \<Rightarrow> []) events)"

text \<open>
  Example inputs: three commands, of which \<open>deploy\<close> throws, and a workflow of three
  steps.
\<close>

definition exampleConfigs :: "(string list, string) StepCommandConfig list" where
  "exampleConfigs =
     [\<lparr>prefix = [''build''], cmdAction = (\<lambda>rest s. Inr (s @ [''built'']))\<rparr>,
      \<lparr>prefix = [''deploy''], cmdAction = (\<lambda>rest s. Inl ''deploy failed'')\<rparr>,
      \<lparr>prefix = [''test''], cmdAction = (\<lambda>rest s. Inr (s @ [''tested'']))\<rparr>]"

definition exampleSteps :: "WorkflowStepSpec list" where
  "exampleSteps =
     [\<lparr>command = [''build''], description = None\<rparr>,
      \<lparr>command = [''deploy'', ''--force''], description = Some ''roll out''\<rparr>,
      \<lparr>command = [''test''], description = None\<rparr>]"

section \<open>Example inputs of the build command\<close>

text \<open>
  For the examples a graph is the list of its build dependencies, pairs of the names of
  a dependant and of the module it depends on. \<open>exampleGetModules\<close> answers with the
  named modules, or with every module of the graph when no name is given;
  \<open>exampleGetDependants\<close> answers with the direct dependants; \<open>singleTask\<close> is a
  factory that returns its argument as the one task.
\<close>

definition exampleGetModules :: "(string \<times> string) list \<Rightarrow> string list option \<Rightarrow> Module list" where
  "exampleGetModules g names =
     (case names of
        None \<Rightarrow> map (\<lambda>n. \<lparr>name = n\<rparr>) (remdups (concat (map (\<lambda>e. [fst e, snd e]) g)))
      | Some ns \<Rightarrow> map (\<lambda>n. \<lparr>name = n\<rparr>) ns)"

definition exampleGetDependants ::
  "(string \<times> string) list \<Rightarrow> node_type \<Rightarrow> string \<Rightarrow> bool \<Rightarrow> DependencyRelations" where
  "exampleGetDependants g nodeType n recursive =
     \<lparr>build = map (\<lambda>e. \<lparr>name = fst e\<rparr>) (filter (\<lambda>e. snd e = n) g)\<rparr>"

definition singleTask :: "'g BuildTaskParams \<Rightarrow> 'g BuildTaskParams list" where
  "singleTask p = [p]"

section \<open>The dependency graph\<close>

text \<open>
  Modelled from the spec: a node of the dependency graph, whose identity is its kind and
  its name. The class of the graph is defined elsewhere in the repository; the kinds are
  the node types the build command names.
\<close>

type_synonym Node = "node_type \<times> string"

text \<open>Modelled from the spec: the purpose of an edge (build-time, runtime, test-time).\<close>

datatype edge_purpose = BuildTime | Runtime | TestTime

text \<open>
  Modelled from the spec: an edge says that node \<open>dependant\<close> depends on node
  \<open>dependency\<close> for a purpose.
\<close>

record Edge =
  dependant :: Node
  dependency :: Node
  purpose :: edge_purpose

text \<open>Modelled from the spec: a snapshot of the graph, its nodes and its edges.\<close>

record ConfigGraph =
  nodes :: "Node list"
  edges :: "Edge list"

text \<open>
  Modelled from the spec: \<^verbatim>\<open>getNodes(filter: {kinds?, names?})\<close>, a pure query; an
  absent filter selects everything.
\<close>

definition getNodes :: "ConfigGraph \<Rightarrow> node_type list option \<Rightarrow> string list option \<Rightarrow> Node list" where
  "getNodes g kinds names =
     filter (\<lambda>n. (case kinds of None \<Rightarrow> True | Some ks \<Rightarrow> fst n \<in> set ks)
                \<and> (case names of None \<Rightarrow> True | Some ns \<Rightarrow> snd n \<in> set ns))
       (nodes g)"

text \<open>Modelled from the spec: the direct dependents of a node, each once.\<close>

definition directDependents :: "ConfigGraph \<Rightarrow> Node \<Rightarrow> Node list" where
  "directDependents g n = remdups (map dependant (filter (\<lambda>e. dependency e = n) (edges g)))"

text \<open>
  Modelled from the spec: the reachability traversal of \<^verbatim>\<open>getDependents\<close>, which
  follows the edges in reverse and passes over a node it has visited. \<open>todo\<close> are
  the nodes still to be looked at, \<open>visited\<close> the dependents found so far, in the
  order they were found.
\<close>

function traverse :: "ConfigGraph \<Rightarrow> Node list \<Rightarrow> Node list \<Rightarrow> Node list" where
  "traverse g [] visited = visited"
| "traverse g (n # todo) visited =
     (if n \<in> set visited then traverse g todo visited
      else traverse g (directDependents g n @ todo) (visited @ [n]))"
  by pat_completeness auto

lemma directDependents_subset: "set (directDependents g n) \<subseteq> dependant ` set (edges g)"
  by (auto simp: directDependents_def)

text \<open>
  The traversal ends on every graph, cyclic or not: a step either visits a new node,
  of which the edges and the list \<open>todo\<close> name finitely many, or shortens \<open>todo\<close>.
\<close>

termination traverse
proof (relation "inv_image (less_than <*lex*> less_than)
    (\<lambda>(g, todo, visited).
       (card ((dependant ` set (edges g) \<union> set todo) - set visited), length todo))")
  show "wf (inv_image (less_than <*lex*> less_than)
    (\<lambda>(g, todo, visited).
       (card ((dependant ` set (edges g) \<union> set todo) - set visited), length todo)))"
    by (intro wf_inv_image wf_lex_prod wf_less_than)
next
  fix g :: ConfigGraph and n :: Node and todo visited :: "Node list"
  assume "n \<in> set visited"
  then have "(dependant ` set (edges g) \<union> set (n # todo)) - set visited
      = (dependant ` set (edges g) \<union> set todo) - set visited" by auto
  then show "((g, todo, visited), (g, n # todo, visited))
      \<in> inv_image (less_than <*lex*> less_than)
    (\<lambda>(g, todo, visited).
       (card ((dependant ` set (edges g) \<union> set todo) - set visited), length todo))"
    by simp
next
  fix g :: ConfigGraph and n :: Node and todo visited :: "Node list"
  assume n: "n \<notin> set visited"
  let ?D = "dependant ` set (edges g)"
  have "(?D \<union> set (directDependents g n @ todo)) - set (visited @ [n])
      \<subset> (?D \<union> set (n # todo)) - set visited"
    using n directDependents_subset [of g n] by auto
  then have "card ((?D \<union> set (directDependents g n @ todo)) - set (visited @ [n]))
      < card ((?D \<union> set (n # todo)) - set visited)"
    by (intro psubset_card_mono) auto
  then show "((g, directDependents g n @ todo, visited @ [n]), (g, n # todo, visited))
      \<in> inv_image (less_than <*lex*> less_than)
    (\<lambda>(g, todo, visited).
       (card ((dependant ` set (edges g) \<union> set todo) - set visited), length todo))"
    by simp
qed

text \<open>
  Modelled from the spec: \<^verbatim>\<open>getDependents(node, {kinds?, recursive})\<close>, the direct
  dependents when \<open>recursive\<close> is false and the traversal's result when it is true,
  filtered to the kinds asked for.
\<close>

definition getDependents :: "ConfigGraph \<Rightarrow> Node \<Rightarrow> node_type list option \<Rightarrow> bool \<Rightarrow> Node list" where
  "getDependents g n kinds recursive =
     filter (\<lambda>d. case kinds of None \<Rightarrow> True | Some ks \<Rightarrow> fst d \<in> set ks)
       (if recursive then traverse g (directDependents g n) [] else directDependents g n)"

text \<open>Modelled from the spec: the module of a build node, as the build command reads it.\<close>

definition toModule :: "Node \<Rightarrow> Module" where
  "toModule n = \<lparr>name = snd n\<rparr>"

text \<open>
  Modelled from the spec: \<^verbatim>\<open>graph.getModules({ names })\<close> of the build command as
  \<^verbatim>\<open>getNodes\<close> on the build nodes.
\<close>

definition ConfigGraph_getModules :: "ConfigGraph \<Rightarrow> string list option \<Rightarrow> Module list" where
  "ConfigGraph_getModules g names = map toModule (getNodes g (Some [Build]) names)"

text \<open>
  Modelled from the spec: \<^verbatim>\<open>graph.getDependants({ nodeType, name, recursive })\<close> of the
  build command as \<^verbatim>\<open>getDependents\<close> on the node of that type and name; its
  \<^verbatim>\<open>build\<close> field holds the dependents of kind build.
\<close>

definition ConfigGraph_getDependants ::
  "ConfigGraph \<Rightarrow> node_type \<Rightarrow> string \<Rightarrow> bool \<Rightarrow> DependencyRelations" where
  "ConfigGraph_getDependants g nodeType name' recursive =
     \<lparr>build = map toModule (getDependents g (nodeType, name') (Some [Build]) recursive)\<rparr>"

text \<open>The relation "depends on" between the nodes of a graph, read off its edges.\<close>

definition dependsOn :: "ConfigGraph \<Rightarrow> (Node \<times> Node) set" where
  "dependsOn g = {(dependant e, dependency e) | e. e \<in> set (edges g)}"

text \<open>The graph of the scenarios: \<open>A\<close> depends on \<open>B\<close>, and \<open>B\<close> on \<open>C\<close>.\<close>

definition graphABC :: ConfigGraph where
  "graphABC =
     \<lparr>nodes = [(Build, ''A''), (Build, ''B''), (Build, ''C'')],
      edges = [\<lparr>dependant = (Build, ''A''), dependency = (Build, ''B''), purpose = BuildTime\<rparr>,
               \<lparr>dependant = (Build, ''B''), dependency = (Build, ''C''), purpose = BuildTime\<rparr>]\<rparr>"

section \<open>The execution engine\<close>

text \<open>
  The scheduler that \<^verbatim>\<open>processModules\<close> hands the tasks to is defined elsewhere in
  the repository. This section models one processing round of it on a fresh engine
  instance, from sections 3, 4.2 and 4.3 of the specification. The reuse of results of
  earlier rounds (step 6 of section 4.3) does not arise on a fresh instance and is left
  out.
\<close>

text \<open>Modelled from the spec: the dedup key of a task, its kind, target name and version.\<close>

type_synonym TaskKey = "node_type \<times> string \<times> string"

text \<open>
  Modelled from the spec: a task, \<^verbatim>\<open>{ kind, targetName, version, dependencyTaskKeys,
  force }\<close>.
\<close>

record Task =
  kind :: node_type
  targetName :: string
  version :: string
  dependencyTaskKeys :: "TaskKey list"
  force :: bool

text \<open>Modelled from the spec: \<open>kind\<close>, \<open>targetName\<close> and \<open>version\<close> together
  form the dedup key.\<close>

definition taskKey :: "Task \<Rightarrow> TaskKey" where
  "taskKey t = (kind t, targetName t, version t)"

text \<open>
  Modelled from the spec: the result recorded for a key. \<open>Succeeded\<close> and \<open>Failed\<close>
  carry what the execution returned or raised; the third kind is the result of a task
  that was not attempted because a prerequisite failed.
\<close>

datatype 'o TaskResult = Succeeded 'o | Failed 'o | SkippedDueToDependencyFailure

text \<open>Modelled from the spec: the states of a key in \<^verbatim>\<open>ExecutionState\<close>.\<close>

datatype 'o TaskStatus = Pending | Running | Done "'o TaskResult"

text \<open>
  Modelled from the spec: the engine during a round. \<open>tasks\<close> is the pending set the
  round was seeded with, \<open>state\<close> is \<^verbatim>\<open>ExecutionState\<close>; \<open>executions\<close> lists
  the calls of the \<^verbatim>\<open>execute\<close> hook in the order they were started and
  \<open>completions\<close> the calls that have returned, so that the executions in flight can
  be counted.
\<close>

record 'o Engine =
  tasks :: "Task list"
  state :: "TaskKey \<rightharpoonup> 'o TaskStatus"
  executions :: "Task list"
  completions :: "Task list"

text \<open>
  Modelled from the spec: step 1 of the algorithm for one task. A task whose key is
  already in the pending set replaces the one there only if it is forced and the other
  is not.
\<close>

fun submit :: "Task \<Rightarrow> Task list \<Rightarrow> Task list" where
  "submit t [] = [t]"
| "submit t (u # us) =
     (if taskKey u = taskKey t then (if Task.force t \<and> \<not> Task.force u then t else u) # us
      else u # submit t us)"

text \<open>Modelled from the spec: step 1, the initial tasks deduplicated by key.\<close>

definition dedupByKey :: "Task list \<Rightarrow> Task list" where
  "dedupByKey initialTasks' = foldl (\<lambda>acc t. submit t acc) [] initialTasks'"

text \<open>
  Modelled from the spec: the engine at the start of a round, every key of the pending
  set in state \<open>Pending\<close>. The spec does not say how the key of a dependency becomes
  a task, so the round is given the tasks of the dependencies with the initial tasks.
\<close>

definition seed :: "Task list \<Rightarrow> 'o Engine" where
  "seed initialTasks' =
     \<lparr>tasks = dedupByKey initialTasks',
      state = map_of (map (\<lambda>t. (taskKey t, Pending)) (dedupByKey initialTasks')),
      executions = [],
      completions = []\<rparr>"

text \<open>Modelled from the spec: step 2, every dependency of the task has a recorded result.\<close>

definition depsRecorded :: "'o Engine \<Rightarrow> Task \<Rightarrow> bool" where
  "depsRecorded eng t =
     list_all (\<lambda>d. case state eng d of Some (Done r) \<Rightarrow> True | _ \<Rightarrow> False) (dependencyTaskKeys t)"

text \<open>
  Modelled from the spec: step 3, the result of some dependency of the task is a
  failure, that is, a failed execution or a skip.
\<close>

definition depFailed :: "'o Engine \<Rightarrow> Task \<Rightarrow> bool" where
  "depFailed eng t =
     list_ex (\<lambda>d. case state eng d of
                   Some (Done (Succeeded out)) \<Rightarrow> False
                 | Some (Done r) \<Rightarrow> True
                 | _ \<Rightarrow> False) (dependencyTaskKeys t)"

text \<open>Modelled from the spec: the number of tasks executing, which the limit bounds.\<close>

definition runningCount :: "'o Engine \<Rightarrow> nat" where
  "runningCount eng =
     length (filter (\<lambda>t. case state eng (taskKey t) of Some Running \<Rightarrow> True | _ \<Rightarrow> False)
       (tasks eng))"

text \<open>
  Modelled from the spec: what can happen in a round. A runner starts a task (the
  \<^verbatim>\<open>execute\<close> hook is called), a running task finishes (its result is recorded), or
  a task is recorded as skipped.
\<close>

datatype event = Start Task | Finish Task | Skip Task

definition isPending :: "'o Engine \<Rightarrow> Task \<Rightarrow> bool" where
  "isPending eng t = (case state eng (taskKey t) of Some Pending \<Rightarrow> True | _ \<Rightarrow> False)"

definition isRunning :: "'o Engine \<Rightarrow> Task \<Rightarrow> bool" where
  "isRunning eng t = (case state eng (taskKey t) of Some Running \<Rightarrow> True | _ \<Rightarrow> False)"

text \<open>
  Modelled from the spec: when an event may happen. A pending task is started when it
  is ready (step 2), no result of a dependency is a failure (step 3) and fewer than
  \<open>limit\<close> tasks are running; it is skipped when the result of a dependency is a
  failure; a running task may finish at any time.
\<close>

fun enabled :: "nat \<Rightarrow> 'o Engine \<Rightarrow> event \<Rightarrow> bool" where
  "enabled limit eng (Start t) =
     (t \<in> set (tasks eng) \<and> isPending eng t \<and> depsRecorded eng t \<and> \<not> depFailed eng t
      \<and> runningCount eng < limit)"
| "enabled limit eng (Finish t) = (t \<in> set (tasks eng) \<and> isRunning eng t)"
| "enabled limit eng (Skip t) = (t \<in> set (tasks eng) \<and> isPending eng t \<and> depFailed eng t)"

text \<open>
  Modelled from the spec: the result of an execution. The hook returns whether it
  succeeded and its output; an execution that raises is a failure result.
\<close>

definition resultOf :: "bool \<times> 'o \<Rightarrow> 'o TaskResult" where
  "resultOf r = (if fst r then Succeeded (snd r) else Failed (snd r))"

text \<open>Modelled from the spec: the effect of an event on the engine.\<close>

fun applyEvent :: "(Task \<Rightarrow> bool \<times> 'o) \<Rightarrow> 'o Engine \<Rightarrow> event \<Rightarrow> 'o Engine" where
  "applyEvent execute eng (Start t) =
     eng\<lparr>state := (state eng)(taskKey t \<mapsto> Running), executions := executions eng @ [t]\<rparr>"
| "applyEvent execute eng (Finish t) =
     eng\<lparr>state := (state eng)(taskKey t \<mapsto> Done (resultOf (execute t))),
         completions := completions eng @ [t]\<rparr>"
| "applyEvent execute eng (Skip t) =
     eng\<lparr>state := (state eng)(taskKey t \<mapsto> Done SkippedDueToDependencyFailure)\<rparr>"

text \<open>Modelled from the spec: the events that may happen next.\<close>

definition enabledEvents :: "nat \<Rightarrow> 'o Engine \<Rightarrow> event list" where
  "enabledEvents limit eng =
     filter (enabled limit eng) (concat (map (\<lambda>t. [Skip t, Start t, Finish t]) (tasks eng)))"

text \<open>
  Modelled from the spec: the engine after a sequence of events, each of which must be
  enabled when it happens. The sequences from \<open>seed\<close> are the instants of every
  schedule the scheduler may follow.
\<close>

fun runEvents :: "(Task \<Rightarrow> bool \<times> 'o) \<Rightarrow> nat \<Rightarrow> 'o Engine \<Rightarrow> event list \<Rightarrow> 'o Engine option" where
  "runEvents execute limit eng [] = Some eng"
| "runEvents execute limit eng (e # es) =
     (if enabled limit eng e then runEvents execute limit (applyEvent execute eng e) es else None)"

text \<open>The work left in a round: two for a pending task, one for a running one.\<close>

definition weight :: "'o Engine \<Rightarrow> nat" where
  "weight eng =
     sum_list (map (\<lambda>t. case state eng (taskKey t) of
                          Some Pending \<Rightarrow> 2 | Some Running \<Rightarrow> 1 | _ \<Rightarrow> 0) (tasks eng))"

lemma sum_list_less:
  fixes f f' :: "'a \<Rightarrow> nat"
  shows "\<forall>u\<in>set ts. f' u \<le> f u \<Longrightarrow> t \<in> set ts \<Longrightarrow> f' t < f t
    \<Longrightarrow> sum_list (map f' ts) < sum_list (map f ts)"
proof (induction ts)
  case Nil
  then show ?case by simp
next
  case (Cons u us)
  have le: "sum_list (map f' us) \<le> sum_list (map f us)"
    using Cons.prems(1) by (intro sum_list_mono) simp
  show ?case
  proof (cases "t = u")
    case True
    with Cons.prems(3) le show ?thesis by simp
  next
    case False
    with Cons.prems have "t \<in> set us" by simp
    with Cons have "sum_list (map f' us) < sum_list (map f us)" by simp
    moreover have "f' u \<le> f u" using Cons.prems(1) by simp
    ultimately show ?thesis by simp
  qed
qed

lemma enabledEvents_enabled: "e \<in> set (enabledEvents limit eng) \<Longrightarrow> enabled limit eng e"
  by (simp add: enabledEvents_def)

lemma tasks_applyEvent: "tasks (applyEvent execute eng e) = tasks eng"
  by (cases e) simp_all

lemma weight_applyEvent:
  assumes "enabled limit eng e"
  shows "weight (applyEvent execute eng e) < weight eng"
proof (cases e)
  case (Start t)
  with assms have t: "t \<in> set (tasks eng)" and p: "state eng (taskKey t) = Some Pending"
    by (auto simp: isPending_def split: option.splits TaskStatus.splits)
  show ?thesis unfolding weight_def tasks_applyEvent unfolding Start
    by (rule sum_list_less [where t = t])
      (use t p in \<open>auto split: option.splits TaskStatus.splits\<close>)
next
  case (Finish t)
  with assms have t: "t \<in> set (tasks eng)" and p: "state eng (taskKey t) = Some Running"
    by (auto simp: isRunning_def split: option.splits TaskStatus.splits)
  show ?thesis unfolding weight_def tasks_applyEvent unfolding Finish
    by (rule sum_list_less [where t = t])
      (use t p in \<open>auto split: option.splits TaskStatus.splits\<close>)
next
  case (Skip t)
  with assms have t: "t \<in> set (tasks eng)" and p: "state eng (taskKey t) = Some Pending"
    by (auto simp: isPending_def split: option.splits TaskStatus.splits)
  show ?thesis unfolding weight_def tasks_applyEvent unfolding Skip
    by (rule sum_list_less [where t = t])
      (use t p in \<open>auto split: option.splits TaskStatus.splits\<close>)
qed

text \<open>
  Modelled from the spec: steps 2 to 5, the round. While some event is enabled the
  scheduler lets one happen; the spec promises no order among ready tasks, so the
  choice is a parameter \<open>pick\<close>, which sees the engine and the enabled events (the
  first of them happens if \<open>pick\<close> answers with another event). The round is over
  when no event is enabled. Every event uses up some of the \<open>weight\<close>, so the round
  ends whatever \<open>pick\<close> is.
\<close>

function processLoop ::
  "('o Engine \<Rightarrow> event list \<Rightarrow> event) \<Rightarrow> (Task \<Rightarrow> bool \<times> 'o) \<Rightarrow> nat \<Rightarrow> 'o Engine \<Rightarrow> 'o Engine" where
  "processLoop pick execute limit eng =
     (case enabledEvents limit eng of
        [] \<Rightarrow> eng
      | e # es \<Rightarrow>
          (let c = pick eng (e # es);
               ev = (if c \<in> set (e # es) then c else e)
           in processLoop pick execute limit (applyEvent execute eng ev)))"
  by pat_completeness auto

termination processLoop
proof (relation "measure (\<lambda>(pick, execute, limit, eng). weight eng)")
  show "wf (measure (\<lambda>(pick, execute, limit, eng). weight eng))" by simp
next
  fix pick :: "'o Engine \<Rightarrow> event list \<Rightarrow> event" and execute :: "Task \<Rightarrow> bool \<times> 'o"
    and limit :: nat and eng :: "'o Engine" and e es c ev
  assume en: "enabledEvents limit eng = e # es" and c: "c = pick eng (e # es)"
    and ev: "ev = (if c \<in> set (e # es) then c else e)"
  have "ev \<in> set (enabledEvents limit eng)" using en ev by auto
  then have "enabled limit eng ev" by (rule enabledEvents_enabled)
  then have "weight (applyEvent execute eng ev) < weight eng" by (rule weight_applyEvent)
  then show "((pick, execute, limit, applyEvent execute eng ev), (pick, execute, limit, eng))
      \<in> measure (\<lambda>(pick, execute, limit, eng). weight eng)" by simp
qed

text \<open>Modelled from the spec: a round on a fresh engine, seeded with the initial tasks.\<close>

definition processRound ::
  "('o Engine \<Rightarrow> event list \<Rightarrow> event) \<Rightarrow> (Task \<Rightarrow> bool \<times> 'o) \<Rightarrow> nat \<Rightarrow> Task list \<Rightarrow> 'o Engine" where
  "processRound pick execute concurrencyLimit initialTasks' =
     processLoop pick execute concurrencyLimit (seed initialTasks')"

text \<open>Modelled from the spec: the result map of an engine.\<close>

definition results :: "'o Engine \<Rightarrow> TaskKey \<rightharpoonup> 'o TaskResult" where
  "results eng k = (case state eng k of Some (Done r) \<Rightarrow> Some r | _ \<Rightarrow> None)"

text \<open>
  Modelled from the spec: \<^verbatim>\<open>process(initialTasks, concurrencyLimit)\<close>, which returns
  the result map of the round.
\<close>

definition process ::
  "('o Engine \<Rightarrow> event list \<Rightarrow> event) \<Rightarrow> (Task \<Rightarrow> bool \<times> 'o) \<Rightarrow> nat \<Rightarrow> Task list
     \<Rightarrow> TaskKey \<rightharpoonup> 'o TaskResult" where
  "process pick execute concurrencyLimit initialTasks' =
     results (processRound pick execute concurrencyLimit initialTasks')"

text \<open>The relation "depends on" between the keys of the tasks of a round.\<close>

definition dependsOnKey :: "Task list \<Rightarrow> (TaskKey \<times> TaskKey) set" where
  "dependsOnKey ts = {(taskKey t, d) | t d. t \<in> set ts \<and> d \<in> set (dependencyTaskKeys t)}"

text \<open>
  How often the hook was called for a key, how many of these calls have returned, and
  how many are in flight.
\<close>

definition executionCount :: "'o Engine \<Rightarrow> TaskKey \<Rightarrow> nat" where
  "executionCount eng k = count_list (map taskKey (executions eng)) k"



text \<open>The states of a key in which the hook has been called for it, and those in which
  the call has returned.\<close>

definition executed :: "'o Engine \<Rightarrow> TaskKey \<Rightarrow> bool" where
  "executed eng k =
     (case state eng k of
        Some Running \<Rightarrow> True
      | Some (Done (Succeeded out)) \<Rightarrow> True
      | Some (Done (Failed out)) \<Rightarrow> True
      | _ \<Rightarrow> False)"

definition completed :: "'o Engine \<Rightarrow> TaskKey \<Rightarrow> bool" where
  "completed eng k =
     (case state eng k of
        Some (Done (Succeeded out)) \<Rightarrow> True
      | Some (Done (Failed out)) \<Rightarrow> True
      | _ \<Rightarrow> False)"

definition depSucceeded :: "'o Engine \<Rightarrow> TaskKey \<Rightarrow> bool" where
  "depSucceeded eng d = (case state eng d of Some (Done (Succeeded out)) \<Rightarrow> True | _ \<Rightarrow> False)"

definition depFailure :: "'o Engine \<Rightarrow> TaskKey \<Rightarrow> bool" where
  "depFailure eng d =
     (case state eng d of
        Some (Done (Succeeded out)) \<Rightarrow> False
      | Some (Done r) \<Rightarrow> True
      | _ \<Rightarrow> False)"

text \<open>
  What holds of the engine at every instant of a round: the keys of the pending set
  are distinct and are the keys that have a state; the log of executions holds each
  task whose key is running or has an execution result, once, and the log of
  completions each task whose key has an execution result; a task is executed only
  after all its dependencies have succeeded, and skipped only when a dependency has
  failed; an execution result is the result of the hook.
\<close>

definition engineInv :: "(Task \<Rightarrow> bool \<times> 'o) \<Rightarrow> 'o Engine \<Rightarrow> bool" where
  "engineInv execute eng \<longleftrightarrow>
     distinct (map taskKey (tasks eng))
   \<and> dom (state eng) = taskKey ` set (tasks eng)
   \<and> set (executions eng) \<subseteq> set (tasks eng)
   \<and> distinct (executions eng)
   \<and> (\<forall>t\<in>set (tasks eng). t \<in> set (executions eng) \<longleftrightarrow> executed eng (taskKey t))
   \<and> set (completions eng) \<subseteq> set (tasks eng)
   \<and> distinct (completions eng)
   \<and> (\<forall>t\<in>set (tasks eng). t \<in> set (completions eng) \<longleftrightarrow> completed eng (taskKey t))
   \<and> (\<forall>t\<in>set (tasks eng). executed eng (taskKey t)
         \<longrightarrow> (\<forall>d\<in>set (dependencyTaskKeys t). depSucceeded eng d))
   \<and> (\<forall>t\<in>set (tasks eng). state eng (taskKey t) = Some (Done SkippedDueToDependencyFailure)
         \<longrightarrow> (\<exists>d\<in>set (dependencyTaskKeys t). depFailure eng d))
   \<and> (\<forall>t\<in>set (tasks eng). \<forall>r. state eng (taskKey t) = Some (Done r)
         \<longrightarrow> r = SkippedDueToDependencyFailure \<or> r = resultOf (execute t))"

text \<open>
  Example inputs of the engine: tasks for the chain in which \<open>A\<close> depends on \<open>B\<close>
  and \<open>B\<close> on \<open>C\<close>, a hook under which every execution succeeds, one under which
  the execution of \<open>C\<close> fails, and two schedulers.
\<close>

definition taskA :: Task where
  "taskA = \<lparr>kind = Build, targetName = ''A'', version = ''v-a'',
            dependencyTaskKeys = [(Build, ''B'', ''v-b'')], force = False\<rparr>"

definition taskB :: Task where
  "taskB = \<lparr>kind = Build, targetName = ''B'', version = ''v-b'',
            dependencyTaskKeys = [(Build, ''C'', ''v-c'')], force = False\<rparr>"

definition taskC :: Task where
  "taskC = \<lparr>kind = Build, targetName = ''C'', version = ''v-c'',
            dependencyTaskKeys = [], force = False\<rparr>"

definition allSucceed :: "Task \<Rightarrow> bool \<times> string" where
  "allSucceed t = (True, targetName t)"

definition failC :: "Task \<Rightarrow> bool \<times> string" where
  "failC t = (targetName t \<noteq> ''C'', targetName t)"

definition pickFirst :: "'o Engine \<Rightarrow> event list \<Rightarrow> event" where
  "pickFirst eng evs = hd evs"



definition afterFailureOfC :: "string Engine" where
  "afterFailureOfC =
     applyEvent failC (applyEvent failC (seed [taskA, taskB, taskC]) (Start taskC)) (Finish taskC)"

section \<open>Theorems: the build command\<close>

lemma changeHandler_of_action:
  "changeHandler (BuildCommand_action factory getModules getDependants graph' argsModules
       optsForce optsWatch)
     = BuildCommand_changeHandler factory getDependants graph'
         (map name (getModules graph' argsModules))"
  by (simp add: BuildCommand_action_def Let_def)

lemma modules_of_action:
  "modules (BuildCommand_action factory getModules getDependants graph' argsModules
       optsForce optsWatch)
     = getModules graph' argsModules"
  by (simp add: BuildCommand_action_def Let_def)

lemma initialTasks_of_action:
  "initialTasks (BuildCommand_action factory getModules getDependants graph' argsModules
       optsForce optsWatch)
     = concat (map factory (initialTaskCalls graph' (getModules graph' argsModules) optsForce))"
  by (simp add: BuildCommand_action_def Let_def)

text \<open>
  Claim C1, as amended. Let \<open>p\<close> be what the build command hands to the watch loop and
  \<open>requested\<close> the names of the modules it was asked to build. On a change
  notification for \<open>module'\<close> with the refreshed graph \<open>newGraph\<close>, the handler
  returns the flattened results of one factory call per module of the list made of the
  changed module followed by its recursive build dependants, restricted to the modules
  whose name is in \<open>requested\<close>; the changed module is held to that restriction like
  its dependants. Every call has \<open>force = true\<close>, and no call is for a module outside
  \<open>requested\<close>.
\<close>

theorem changeHandler_forced_tasks_within_request:
  "let p = BuildCommand_action factory getModules getDependants graph' argsModules
             optsForce optsWatch;
       requested = set (map name (modules p));
       deps = getDependants newGraph Build (name module') True;
       calls = changeHandlerCalls getDependants graph' (map name (modules p)) newGraph module'
   in changeHandler p newGraph module' = concat (map factory calls)
      \<and> map module calls = filter (\<lambda>m. name m \<in> requested) (module' # build deps)
      \<and> list_all (\<lambda>c. BuildTaskParams.force c \<and> name (module c) \<in> requested) calls"
  by (simp add: changeHandler_of_action modules_of_action BuildCommand_changeHandler_def
      changeHandlerCalls_def Let_def list_all_iff o_def)

text \<open>
  Claim C1 as stated fails where the changed module is not one of the requested
  modules. The build of \<open>a\<close> was requested, \<open>a\<close> depends on \<open>b\<close>, and \<open>b\<close>
  changes: the only factory call is for \<open>a\<close>, none is for the changed module.
\<close>

theorem changeHandler_no_task_for_unrequested_changed_module:
  "map module (changeHandlerCalls exampleGetDependants [(''a'', ''b'')] [''a'']
       [(''a'', ''b'')] \<lparr>name = ''b''\<rparr>) = [\<lparr>name = ''a''\<rparr>]
   \<and> \<lparr>name = ''b''\<rparr> \<notin> set (map module (changeHandlerCalls exampleGetDependants
       [(''a'', ''b'')] [''a''] [(''a'', ''b'')] \<lparr>name = ''b''\<rparr>))"
  by (simp add: changeHandlerCalls_def exampleGetDependants_def)

text \<open>
  Claim C3 at a failing input. The first round ran on a graph without dependencies,
  the refreshed graph has \<open>a\<close> depend on \<open>b\<close>, and \<open>b\<close> changes. The handler
  asks the refreshed graph for the dependants and finds \<open>a\<close>, but both factory
  calls receive the graph of the first round (the empty list), not the refreshed one.
\<close>

theorem changeHandler_passes_original_graph:
  "map module (changeHandlerCalls exampleGetDependants [] [''a'', ''b'']
       [(''a'', ''b'')] \<lparr>name = ''b''\<rparr>) = [\<lparr>name = ''b''\<rparr>, \<lparr>name = ''a''\<rparr>]
   \<and> map BuildTaskParams.graph (changeHandlerCalls exampleGetDependants [] [''a'', ''b'']
       [(''a'', ''b'')] \<lparr>name = ''b''\<rparr>) = [[], []]"
  by (simp add: changeHandlerCalls_def exampleGetDependants_def)

text \<open>
  Claim C5. The build command asks the graph for the modules with exactly the names the
  caller gave (\<open>argsModules\<close>, which is \<open>None\<close> when the caller named none, so that
  the choice of all modules is the graph's), and its initial tasks are the flattened
  results of one factory call per module returned, in order, each with the caller's
  \<open>force\<close> flag and the graph of this round. Where the factory returns one task per
  call, as the task factory of the specification does, there is one initial task per
  module.
\<close>

theorem action_initial_tasks:
  "let p = BuildCommand_action factory getModules getDependants graph' argsModules
             optsForce optsWatch;
       calls = initialTaskCalls graph' (modules p) optsForce
   in modules p = getModules graph' argsModules
      \<and> initialTasks p = concat (map factory calls)
      \<and> map module calls = modules p
      \<and> list_all (\<lambda>c. BuildTaskParams.force c = optsForce \<and> BuildTaskParams.graph c = graph') calls
      \<and> ((\<forall>c. length (factory c) = 1) \<longrightarrow> length (initialTasks p) = length (modules p))"
proof -
  let ?p = "BuildCommand_action factory getModules getDependants graph' argsModules
             optsForce optsWatch"
  let ?calls = "initialTaskCalls graph' (modules ?p) optsForce"
  have len: "length (concat (map factory cs)) = length cs"
    if "\<forall>c. length (factory c) = 1" for cs :: "'a BuildTaskParams list"
    using that by (induction cs) simp_all
  have 1: "modules ?p = getModules graph' argsModules" by (rule modules_of_action)
  have 2: "initialTasks ?p = concat (map factory ?calls)"
    by (simp add: initialTasks_of_action modules_of_action)
  have 3: "map module ?calls = modules ?p" by (simp add: initialTaskCalls_def o_def)
  have 4: "list_all (\<lambda>c. BuildTaskParams.force c = optsForce \<and> BuildTaskParams.graph c = graph')
      ?calls"
    by (simp add: initialTaskCalls_def list_all_iff)
  have 5: "(\<forall>c. length (factory c) = 1) \<longrightarrow> length (initialTasks ?p) = length (modules ?p)"
    using len [of ?calls] unfolding 2 by (simp add: initialTaskCalls_def)
  show ?thesis unfolding Let_def using 1 2 3 4 5 by blast
qed

theorem action_initial_tasks_witness:
  "(\<forall>c :: (string \<times> string) list BuildTaskParams. length (singleTask c) = 1)
   \<and> initialTasks (BuildCommand_action singleTask exampleGetModules exampleGetDependants
        [(''a'', ''b'')] (Some [''a'']) True False)
      = [\<lparr>graph = [(''a'', ''b'')], module = \<lparr>name = ''a''\<rparr>, force = True\<rparr>]
   \<and> map module (initialTasks (BuildCommand_action singleTask exampleGetModules
        exampleGetDependants [(''a'', ''b'')] None False False))
      = [\<lparr>name = ''a''\<rparr>, \<lparr>name = ''b''\<rparr>]"
  using action_initial_tasks [of singleTask exampleGetModules exampleGetDependants
      "[(''a'', ''b'')]" "Some [''a'']" True False]
    action_initial_tasks [of singleTask exampleGetModules exampleGetDependants
      "[(''a'', ''b'')]" None False False]
  by (simp add: singleTask_def exampleGetModules_def initialTaskCalls_def Let_def)

section \<open>Theorems: enterprise initialisation\<close>

text \<open>
  Claim C8, as amended. A value counts as stored, or as set, when it is truthy. If
  reading the token is rejected, \<^verbatim>\<open>enterpriseInit\<close> throws that error. Otherwise it
  throws a \<^verbatim>\<open>ConfigurationError\<close> exactly when a token is stored and the domain or
  the project id is missing, and it then calls no backend. Without a stored token it
  returns the token as read with empty secrets and calls nothing. With a stored token
  and a complete configuration it checks the token: a rejected check is thrown on; an
  invalid token gives a warning and a normal return with empty secrets; a valid token
  makes it ask for the secrets, and it returns them with the token, or throws the
  error on if that call is rejected.
\<close>

theorem enterpriseInit_cases:
  "let (events, result) =
         enterpriseInit readAuthToken checkClientAuthToken getSecrets projectConfig env;
       missing = (\<not> truthy (domain projectConfig) \<or> \<not> truthy (projectId projectConfig))
   in case readAuthToken of
        Inl e \<Rightarrow> events = [] \<and> result = Inl (Rejected e)
      | Inr storedToken \<Rightarrow>
          ((\<exists>msgs. result = Inl (ConfigurationError msgs)) \<longleftrightarrow> (truthy storedToken \<and> missing))
          \<and> (if truthy storedToken \<and> missing then events = []
              else if \<not> truthy storedToken then
                events = []
                \<and> result = Inr \<lparr>clientAuthToken = storedToken, secrets = Map.empty\<rparr>
              else
                (let token = the storedToken;
                     domain' = the (domain projectConfig);
                     params = \<lparr>secretsProjectId = the (projectId projectConfig),
                               enterpriseDomain = domain',
                               secretsAuthToken = token,
                               environmentName = env\<rparr>
                 in case checkClientAuthToken token domain' of
                      Inl e \<Rightarrow>
                        events = [CheckClientAuthToken token domain']
                        \<and> result = Inl (Rejected e)
                    | Inr False \<Rightarrow>
                        events = [CheckClientAuthToken token domain', LogWarn]
                        \<and> result = Inr \<lparr>clientAuthToken = storedToken, secrets = Map.empty\<rparr>
                    | Inr True \<Rightarrow>
                        events = [CheckClientAuthToken token domain', GetSecrets params]
                        \<and> (case getSecrets params of
                             Inl e \<Rightarrow> result = Inl (Rejected e)
                           | Inr secrets' \<Rightarrow>
                               result = Inr \<lparr>clientAuthToken = storedToken,
                                             secrets = secrets'\<rparr>)))"
  by (auto simp add: enterpriseInit_def Let_def split: sum.splits bool.splits)

text \<open>
  Five runs of \<^verbatim>\<open>enterpriseInit\<close>: a stored token without a project id, no stored
  token, an invalid token, a valid token, and a token that cannot be read.
\<close>

theorem enterpriseInit_cases_witness:
  "enterpriseInit (Inr (Some ''t1'')) (tokenIs ''t1'') exampleSecrets
       \<lparr>projectId = None, domain = Some ''https://d''\<rparr> ''dev''
     = ([], Inl (ConfigurationError [ProjectIdNotSet]))
   \<and> enterpriseInit (Inr None) (tokenIs ''t1'') exampleSecrets
       \<lparr>projectId = None, domain = None\<rparr> ''dev''
     = ([], Inr \<lparr>clientAuthToken = None, secrets = Map.empty\<rparr>)
   \<and> enterpriseInit (Inr (Some ''t2'')) (tokenIs ''t1'') exampleSecrets
       \<lparr>projectId = Some ''p'', domain = Some ''https://d''\<rparr> ''dev''
     = ([CheckClientAuthToken ''t2'' ''https://d'', LogWarn],
        Inr \<lparr>clientAuthToken = Some ''t2'', secrets = Map.empty\<rparr>)
   \<and> snd (enterpriseInit (Inr (Some ''t1'')) (tokenIs ''t1'') exampleSecrets
       \<lparr>projectId = Some ''p'', domain = Some ''https://d''\<rparr> ''dev'')
     = Inr \<lparr>clientAuthToken = Some ''t1'', secrets = [''key'' \<mapsto> ''p'']\<rparr>
   \<and> enterpriseInit (Inl ''no keychain'') (tokenIs ''t1'') exampleSecrets
       \<lparr>projectId = Some ''p'', domain = Some ''https://d''\<rparr> ''dev''
     = ([], Inl (Rejected ''no keychain''))"
  using enterpriseInit_cases [of "Inr (Some ''t1'')" "tokenIs ''t1''" exampleSecrets
      "\<lparr>projectId = None, domain = Some ''https://d''\<rparr>" "''dev''"]
    enterpriseInit_cases [of "Inr None" "tokenIs ''t1''" exampleSecrets
      "\<lparr>projectId = None, domain = None\<rparr>" "''dev''"]
    enterpriseInit_cases [of "Inr (Some ''t2'')" "tokenIs ''t1''" exampleSecrets
      "\<lparr>projectId = Some ''p'', domain = Some ''https://d''\<rparr>" "''dev''"]
    enterpriseInit_cases [of "Inr (Some ''t1'')" "tokenIs ''t1''" exampleSecrets
      "\<lparr>projectId = Some ''p'', domain = Some ''https://d''\<rparr>" "''dev''"]
    enterpriseInit_cases [of "Inl ''no keychain''" "tokenIs ''t1''" exampleSecrets
      "\<lparr>projectId = Some ''p'', domain = Some ''https://d''\<rparr>" "''dev''"]
  by (simp add: enterpriseInit_def truthy_def tokenIs_def exampleSecrets_def Let_def)

text \<open>
  Claim C8 as stated fails where an awaited call is rejected. A token is stored, the
  domain and the project id are set and the token is valid, so the claim has the
  function return normally; the backend cannot be reached when the secrets are asked
  for, and the function throws that error.
\<close>

theorem enterpriseInit_throws_rejection_of_getSecrets:
  "truthy (Some ''t1'') \<and> truthy (Some ''https://d'') \<and> truthy (Some ''p'')
   \<and> enterpriseInit (Inr (Some ''t1'')) (tokenIs ''t1'') unreachableSecrets
       \<lparr>projectId = Some ''p'', domain = Some ''https://d''\<rparr> ''dev''
     = ([CheckClientAuthToken ''t1'' ''https://d'',
         GetSecrets \<lparr>secretsProjectId = ''p'', enterpriseDomain = ''https://d'',
                     secretsAuthToken = ''t1'', environmentName = ''dev''\<rparr>],
        Inl (Rejected ''backend unreachable''))"
  by (simp add: enterpriseInit_def truthy_def tokenIs_def unreachableSecrets_def Let_def)

section \<open>Theorems: the kubectl wrapper\<close>

text \<open>
  Claim C9. Each of \<^verbatim>\<open>stdout\<close>, \<^verbatim>\<open>exec\<close>, \<^verbatim>\<open>spawn\<close> and \<^verbatim>\<open>spawnAndWait\<close> hands
  the base class the caller's parameters with the arguments replaced by: the
  \<^verbatim>\<open>--context\<close> option of the provider first, then \<^verbatim>\<open>--kubeconfig\<close> of the provider
  if configured, then \<^verbatim>\<open>--namespace\<close> if one is given, then \<^verbatim>\<open>--kubeconfig\<close> of the
  call's \<^verbatim>\<open>configPath\<close> if one is given, then the caller's arguments unchanged.
  \<^verbatim>\<open>json\<close> does the same through \<^verbatim>\<open>stdout\<close>, with \<^verbatim>\<open>--output=json\<close> after the
  caller's arguments unless they include it.
\<close>

theorem kubectl_arguments:
  "let opts = [''--context='' @ config_context config]
                @ optionArg ''--kubeconfig='' (config_kubeconfig config)
                @ optionArg ''--namespace='' (namespace params)
                @ optionArg ''--kubeconfig='' (configPath params);
       output = (if ''--output=json'' \<in> set (args params) then [] else [''--output=json''])
   in Kubectl_stdout config params = (Stdout, params\<lparr>args := opts @ args params\<rparr>)
    \<and> Kubectl_exec config params = (Exec, params\<lparr>args := opts @ args params\<rparr>)
    \<and> Kubectl_spawn config params = (Spawn, params\<lparr>args := opts @ args params\<rparr>)
    \<and> Kubectl_spawnAndWait config params = (SpawnAndWait, params\<lparr>args := opts @ args params\<rparr>)
    \<and> Kubectl_json config params = (Stdout, params\<lparr>args := opts @ args params @ output\<rparr>)
    \<and> hd (args (snd (Kubectl_json config params))) = ''--context='' @ config_context config"
  unfolding Kubectl_stdout_def Kubectl_exec_def Kubectl_spawn_def Kubectl_spawnAndWait_def
    Kubectl_json_def Let_def
  by (simp add: prepareArgs_def optionArg_def Let_def split: option.splits)

section \<open>Theorems: the workflow command\<close>

lemma stepsRun_simps:
  "stepsRun [] = []"
  "stepsRun (PrintStepHeader i n d # es) = stepsRun es"
  "stepsRun (RunStepCommand c # es) = c # stepsRun es"
  "stepsRun (PrintStepDuration i n # es) = stepsRun es"
  by (simp_all add: stepsRun_def)

lemma stepsRun_all:
  "stepsRun (concat (map (\<lambda>(k, step). [PrintStepHeader k n (description step),
               RunStepCommand (command step), PrintStepDuration k n])
             (List.enumerate i steps))) = map command steps"
  by (induction steps arbitrary: i) (simp_all add: stepsRun_simps)

lemma runSteps_trace:
  "runSteps configs i n steps s = (events, result) \<Longrightarrow>
     (case result of
        Inr s' \<Rightarrow>
          events = concat (map (\<lambda>(k, step). [PrintStepHeader k n (description step),
                       RunStepCommand (command step), PrintStepDuration k n])
                     (List.enumerate i steps))
      | Inl err \<Rightarrow>
          (\<exists>pre bad post s'. steps = pre @ bad # post
             \<and> snd (runSteps configs i n pre s) = Inr s'
             \<and> runStepCommand configs (command bad) s' = Inl err
             \<and> stepsRun events = map command (pre @ [bad])))"
proof (induction steps arbitrary: i s events result)
  case Nil
  then show ?case by (auto simp: stepsRun_simps)
next
  case (Cons step steps)
  show ?case
  proof (cases "runStepCommand configs (command step) s")
    case (Inl err)
    with Cons.prems
    have "events = [PrintStepHeader i n (description step), RunStepCommand (command step)]"
      and r: "result = Inl err" by auto
    then have "stepsRun events = map command ([] @ [step])" by (simp add: stepsRun_simps)
    moreover have "snd (runSteps configs i n [] s) = Inr s" by simp
    moreover have "step # steps = [] @ step # steps" by simp
    ultimately show ?thesis using Inl r by (auto simp del: append_Nil intro!: exI)
  next
    case (Inr s1)
    obtain ev1 r1 where rec: "runSteps configs (Suc i) n steps s1 = (ev1, r1)"
      by (cases "runSteps configs (Suc i) n steps s1") auto
    from Cons.prems Inr rec have ev: "events = [PrintStepHeader i n (description step),
        RunStepCommand (command step), PrintStepDuration i n] @ ev1" and res: "result = r1"
      by auto
    note IH = Cons.IH [OF rec]
    show ?thesis
    proof (cases r1)
      case (Inr s2)
      with IH have "ev1 = concat (map (\<lambda>(k, step). [PrintStepHeader k n (description step),
                       RunStepCommand (command step), PrintStepDuration k n])
                     (List.enumerate (Suc i) steps))" by simp
      then show ?thesis using ev res Inr by simp
    next
      case (Inl err)
      with IH obtain pre bad post s' where st: "steps = pre @ bad # post"
        and ok: "snd (runSteps configs (Suc i) n pre s1) = Inr s'"
        and bad: "runStepCommand configs (command bad) s' = Inl err"
        and run: "stepsRun ev1 = map command (pre @ [bad])" by auto
      have "step # steps = (step # pre) @ bad # post" using st by simp
      moreover have "snd (runSteps configs i n (step # pre) s) = Inr s'"
        using ok \<open>runStepCommand configs (command step) s = Inr s1\<close>
        by (auto split: prod.splits)
      moreover have "stepsRun events = map command ((step # pre) @ [bad])"
        using ev run by (simp add: stepsRun_simps)
      ultimately show ?thesis using bad res Inl by (auto simp del: append_Cons intro!: exI)
    qed
  qed
qed

lemma stepsRun_append: "stepsRun (xs @ ys) = stepsRun xs @ stepsRun ys"
  by (simp add: stepsRun_def)

lemma runSteps_Cons:
  "snd (runSteps configs i n (step # steps) s)
     = (case runStepCommand configs (command step) s of
          Inl e \<Rightarrow> Inl e
        | Inr s1 \<Rightarrow> snd (runSteps configs (Suc i) n steps s1))"
  "stepsRun (fst (runSteps configs i n (step # steps) s))
     = command step
       # (case runStepCommand configs (command step) s of
            Inl e \<Rightarrow> []
          | Inr s1 \<Rightarrow> stepsRun (fst (runSteps configs (Suc i) n steps s1)))"
  by (simp_all add: stepsRun_simps case_prod_beta split: sum.splits)

text \<open>The outcome of the loop and the commands it runs do not depend on the index and
  the count it prints.\<close>

lemma runSteps_indep:
  "snd (runSteps configs i n steps s) = snd (runSteps configs i' n' steps s)
   \<and> stepsRun (fst (runSteps configs i n steps s)) = stepsRun (fst (runSteps configs i' n' steps s))"
proof (induction steps arbitrary: i i' s)
  case Nil
  then show ?case by simp
next
  case (Cons step steps)
  show ?case
  proof (cases "runStepCommand configs (command step) s")
    case (Inl err)
    then show ?thesis by (simp add: runSteps_Cons del: runSteps.simps)
  next
    case (Inr s1)
    from Cons.IH [of "Suc i" s1 "Suc i'"] show ?thesis
      using Inr by (simp add: runSteps_Cons del: runSteps.simps)
  qed
qed

text \<open>The loop over a list of steps followed by another: an error of the first list
  ends the loop, otherwise the second list is run in the state the first has left.\<close>

lemma runSteps_append:
  "snd (runSteps configs i n (pre @ post) s)
     = (case snd (runSteps configs i n pre s) of
          Inl e \<Rightarrow> Inl e
        | Inr s1 \<Rightarrow> snd (runSteps configs (i + length pre) n post s1))
   \<and> stepsRun (fst (runSteps configs i n (pre @ post) s))
     = stepsRun (fst (runSteps configs i n pre s))
       @ (case snd (runSteps configs i n pre s) of
            Inl e \<Rightarrow> []
          | Inr s1 \<Rightarrow> stepsRun (fst (runSteps configs (i + length pre) n post s1)))"
proof (induction pre arbitrary: i s)
  case Nil
  then show ?case by (simp add: stepsRun_simps)
next
  case (Cons step pre)
  show ?case
  proof (cases "runStepCommand configs (command step) s")
    case (Inl err)
    then show ?thesis by (simp add: runSteps_Cons del: runSteps.simps)
  next
    case (Inr s1)
    from Cons.IH [of "Suc i" s1] show ?thesis
      using Inr by (simp add: runSteps_Cons del: runSteps.simps cong: sum.case_cong)
  qed
qed

lemma action_append:
  "snd (RunWorkflowCommand_action configs (pre @ post) s)
     = (case snd (RunWorkflowCommand_action configs pre s) of
          Inl e \<Rightarrow> Inl e
        | Inr s1 \<Rightarrow> snd (RunWorkflowCommand_action configs post s1))"
  "stepsRun (fst (RunWorkflowCommand_action configs (pre @ post) s))
     = stepsRun (fst (RunWorkflowCommand_action configs pre s))
       @ (case snd (RunWorkflowCommand_action configs pre s) of
            Inl e \<Rightarrow> []
          | Inr s1 \<Rightarrow> stepsRun (fst (RunWorkflowCommand_action configs post s1)))"
proof -
  let ?n = "length (pre @ post)"
  have a: "snd (runSteps configs 0 ?n pre s) = snd (RunWorkflowCommand_action configs pre s)"
    "stepsRun (fst (runSteps configs 0 ?n pre s))
       = stepsRun (fst (RunWorkflowCommand_action configs pre s))"
    unfolding RunWorkflowCommand_action_def
    using runSteps_indep [of configs 0 ?n pre s 0 "length pre"] by simp_all
  have b: "snd (runSteps configs (0 + length pre) ?n post s1)
       = snd (RunWorkflowCommand_action configs post s1)"
    "stepsRun (fst (runSteps configs (0 + length pre) ?n post s1))
       = stepsRun (fst (RunWorkflowCommand_action configs post s1))" for s1
    unfolding RunWorkflowCommand_action_def
    using runSteps_indep [of configs "0 + length pre" ?n post s1 0 "length post"] by simp_all
  have c: "snd (RunWorkflowCommand_action configs (pre @ post) s)
      = snd (runSteps configs 0 ?n (pre @ post) s)"
    "stepsRun (fst (RunWorkflowCommand_action configs (pre @ post) s))
      = stepsRun (fst (runSteps configs 0 ?n (pre @ post) s))"
    by (simp_all add: RunWorkflowCommand_action_def)
  show "snd (RunWorkflowCommand_action configs (pre @ post) s)
     = (case snd (RunWorkflowCommand_action configs pre s) of
          Inl e \<Rightarrow> Inl e
        | Inr s1 \<Rightarrow> snd (RunWorkflowCommand_action configs post s1))"
    unfolding c using runSteps_append [of configs 0 ?n pre post s]
    by (simp only: a b)
  show "stepsRun (fst (RunWorkflowCommand_action configs (pre @ post) s))
     = stepsRun (fst (RunWorkflowCommand_action configs pre s))
       @ (case snd (RunWorkflowCommand_action configs pre s) of
            Inl e \<Rightarrow> []
          | Inr s1 \<Rightarrow> stepsRun (fst (RunWorkflowCommand_action configs post s1)))"
    unfolding c using runSteps_append [of configs 0 ?n pre post s]
    by (simp only: a b)
qed

lemma action_single:
  "snd (RunWorkflowCommand_action configs (step # post) s)
     = (case runStepCommand configs (command step) s of
          Inl e \<Rightarrow> Inl e
        | Inr s1 \<Rightarrow> snd (RunWorkflowCommand_action configs post s1))"
  "stepsRun (fst (RunWorkflowCommand_action configs (step # post) s))
     = command step
       # (case runStepCommand configs (command step) s of
            Inl e \<Rightarrow> []
          | Inr s1 \<Rightarrow> stepsRun (fst (RunWorkflowCommand_action configs post s1)))"
proof -
  have i: "snd (runSteps configs (Suc 0) (Suc (length post)) post s1)
       = snd (runSteps configs 0 (length post) post s1)"
    "stepsRun (fst (runSteps configs (Suc 0) (Suc (length post)) post s1))
       = stepsRun (fst (runSteps configs 0 (length post) post s1))" for s1
    using runSteps_indep [of configs "Suc 0" "Suc (length post)" post s1 0 "length post"]
    by simp_all
  show "snd (RunWorkflowCommand_action configs (step # post) s)
     = (case runStepCommand configs (command step) s of
          Inl e \<Rightarrow> Inl e
        | Inr s1 \<Rightarrow> snd (RunWorkflowCommand_action configs post s1))"
    by (simp add: RunWorkflowCommand_action_def runSteps_Cons i del: runSteps.simps
        cong: sum.case_cong)
  show "stepsRun (fst (RunWorkflowCommand_action configs (step # post) s))
     = command step
       # (case runStepCommand configs (command step) s of
            Inl e \<Rightarrow> []
          | Inr s1 \<Rightarrow> stepsRun (fst (RunWorkflowCommand_action configs post s1)))"
    by (simp add: RunWorkflowCommand_action_def runSteps_Cons i del: runSteps.simps
        cong: sum.case_cong)
qed

text \<open>
  Claim C10. The steps are run one after the other in the declared order, each in the
  state the steps before it have left. If the steps before a step all return and that
  step's command throws \<open>err\<close>, the command throws \<open>err\<close>, and the commands it has
  run are those of the steps up to and including that one, and none of a later step.
  Conversely, when the command throws \<open>err\<close> there is such a step; and when it
  returns, it has run the command of every step, in the declared order, each between
  the header and the duration line of its step.
\<close>

theorem workflow_steps_in_order:
  "(snd (RunWorkflowCommand_action configs pre s) = Inr s1
      \<and> runStepCommand configs (command bad) s1 = Inl err
    \<longrightarrow> snd (RunWorkflowCommand_action configs (pre @ bad # post) s) = Inl err
        \<and> stepsRun (fst (RunWorkflowCommand_action configs (pre @ bad # post) s))
            = map command (pre @ [bad]))
   \<and> snd (RunWorkflowCommand_action configs [] s) = Inr s
   \<and> snd (RunWorkflowCommand_action configs (pre @ [step]) s)
       = (case snd (RunWorkflowCommand_action configs pre s) of
            Inl e \<Rightarrow> Inl e
          | Inr s2 \<Rightarrow> runStepCommand configs (command step) s2)
   \<and> (case RunWorkflowCommand_action configs steps s of
        (events, Inr s') \<Rightarrow>
          events = concat (map (\<lambda>(k, step). [PrintStepHeader k (length steps) (description step),
                       RunStepCommand (command step), PrintStepDuration k (length steps)])
                     (List.enumerate 0 steps))
          \<and> stepsRun events = map command steps
      | (events, Inl err) \<Rightarrow>
          (\<exists>pre bad post s'. steps = pre @ bad # post
             \<and> snd (runSteps configs 0 (length steps) pre s) = Inr s'
             \<and> runStepCommand configs (command bad) s' = Inl err
             \<and> stepsRun events = map command (pre @ [bad])))"
proof (intro conjI impI)
  assume a: "snd (RunWorkflowCommand_action configs pre s) = Inr s1
      \<and> runStepCommand configs (command bad) s1 = Inl err"
  have ok: "stepsRun (fst (RunWorkflowCommand_action configs pre s)) = map command pre"
  proof -
    obtain events where r: "runSteps configs 0 (length pre) pre s = (events, Inr s1)"
      using a unfolding RunWorkflowCommand_action_def
      by (cases "runSteps configs 0 (length pre) pre s") auto
    from runSteps_trace [OF r] show ?thesis
      by (simp add: RunWorkflowCommand_action_def r stepsRun_all)
  qed
  show "snd (RunWorkflowCommand_action configs (pre @ bad # post) s) = Inl err"
    using a by (simp add: action_append(1) action_single(1))
  show "stepsRun (fst (RunWorkflowCommand_action configs (pre @ bad # post) s))
      = map command (pre @ [bad])"
    using a ok by (simp add: action_append(2) action_single(2))
next
  show "snd (RunWorkflowCommand_action configs [] s) = Inr s"
    by (simp add: RunWorkflowCommand_action_def)
next
  show "snd (RunWorkflowCommand_action configs (pre @ [step]) s)
       = (case snd (RunWorkflowCommand_action configs pre s) of
            Inl e \<Rightarrow> Inl e
          | Inr s2 \<Rightarrow> runStepCommand configs (command step) s2)"
  proof -
    have "snd (RunWorkflowCommand_action configs [step] s2)
        = runStepCommand configs (command step) s2" for s2
      by (simp add: RunWorkflowCommand_action_def split: sum.splits)
    then show ?thesis by (simp add: action_append(1) cong: sum.case_cong)
  qed
next
  obtain events result where r: "runSteps configs 0 (length steps) steps s = (events, result)"
    by (cases "runSteps configs 0 (length steps) steps s") auto
  from runSteps_trace [OF r]
  show "case RunWorkflowCommand_action configs steps s of
        (events, Inr s') \<Rightarrow>
          events = concat (map (\<lambda>(k, step). [PrintStepHeader k (length steps) (description step),
                       RunStepCommand (command step), PrintStepDuration k (length steps)])
                     (List.enumerate 0 steps))
          \<and> stepsRun events = map command steps
      | (events, Inl err) \<Rightarrow>
          (\<exists>pre bad post s'. steps = pre @ bad # post
             \<and> snd (runSteps configs 0 (length steps) pre s) = Inr s'
             \<and> runStepCommand configs (command bad) s' = Inl err
             \<and> stepsRun events = map command (pre @ [bad]))"
    unfolding RunWorkflowCommand_action_def r by (cases result) (simp_all add: stepsRun_all)
qed

text \<open>
  A workflow of three steps whose second command throws: the first step returns, the
  second throws, so the command throws its error; the first two commands are run, the
  third is not.
\<close>

theorem workflow_steps_in_order_witness:
  "snd (RunWorkflowCommand_action exampleConfigs (take 1 exampleSteps) []) = Inr [''built'']
   \<and> runStepCommand exampleConfigs (command (exampleSteps ! 1)) [''built'']
       = Inl (CommandError ''deploy failed'')
   \<and> exampleSteps = take 1 exampleSteps @ exampleSteps ! 1 # drop 2 exampleSteps
   \<and> snd (RunWorkflowCommand_action exampleConfigs exampleSteps [])
       = Inl (CommandError ''deploy failed'')
   \<and> stepsRun (fst (RunWorkflowCommand_action exampleConfigs exampleSteps []))
       = [[''build''], [''deploy'', ''--force'']]
   \<and> fst (RunWorkflowCommand_action exampleConfigs exampleSteps [])
       = [PrintStepHeader 0 3 None, RunStepCommand [''build''], PrintStepDuration 0 3,
          PrintStepHeader 1 3 (Some ''roll out''), RunStepCommand [''deploy'', ''--force'']]"
proof -
  have h1: "snd (RunWorkflowCommand_action exampleConfigs (take 1 exampleSteps) [])
      = Inr [''built'']"
    by (simp add: RunWorkflowCommand_action_def exampleConfigs_def exampleSteps_def
        runStepCommand_def Let_def)
  have h2: "runStepCommand exampleConfigs (command (exampleSteps ! 1)) [''built'']
      = Inl (CommandError ''deploy failed'')"
    by (simp add: exampleConfigs_def exampleSteps_def runStepCommand_def Let_def)
  have split: "exampleSteps = take 1 exampleSteps @ exampleSteps ! 1 # drop 2 exampleSteps"
    by (simp add: exampleSteps_def)
  have ev: "fst (RunWorkflowCommand_action exampleConfigs exampleSteps [])
       = [PrintStepHeader 0 3 None, RunStepCommand [''build''], PrintStepDuration 0 3,
          PrintStepHeader 1 3 (Some ''roll out''), RunStepCommand [''deploy'', ''--force'']]"
    by (simp add: RunWorkflowCommand_action_def exampleConfigs_def exampleSteps_def
        runStepCommand_def Let_def)
  have cmds: "map command (take 1 exampleSteps @ [exampleSteps ! 1])
      = [[''build''], [''deploy'', ''--force'']]"
    by (simp add: exampleSteps_def)
  from workflow_steps_in_order [where configs = exampleConfigs and pre = "take 1 exampleSteps"
      and s = "[]" and ?s1.0 = "[''built'']" and bad = "exampleSteps ! 1"
      and err = "CommandError ''deploy failed''" and post = "drop 2 exampleSteps"]
    h1 h2
  have "snd (RunWorkflowCommand_action exampleConfigs
          (take 1 exampleSteps @ exampleSteps ! 1 # drop 2 exampleSteps) [])
        = Inl (CommandError ''deploy failed'')
      \<and> stepsRun (fst (RunWorkflowCommand_action exampleConfigs
          (take 1 exampleSteps @ exampleSteps ! 1 # drop 2 exampleSteps) []))
        = map command (take 1 exampleSteps @ [exampleSteps ! 1])"
    by blast
  then have "snd (RunWorkflowCommand_action exampleConfigs exampleSteps [])
        = Inl (CommandError ''deploy failed'')
      \<and> stepsRun (fst (RunWorkflowCommand_action exampleConfigs exampleSteps []))
        = [[''build''], [''deploy'', ''--force'']]"
    unfolding cmds using split by simp
  then show ?thesis using h1 h2 split ev by blast
qed

section \<open>Theorems: the dependency graph and the change handler\<close>

lemma directDependents_iff: "d \<in> set (directDependents g n) \<longleftrightarrow> (d, n) \<in> dependsOn g"
  by (auto simp: directDependents_def dependsOn_def)

text \<open>A set \<open>V\<close> whose dependents all lie in \<open>V\<close> or in \<open>T\<close> reaches nothing
  beyond \<open>V\<close> and what \<open>T\<close> reaches.\<close>

lemma closed_rtrancl:
  assumes cl: "\<forall>v\<in>V. \<forall>d. (d, v) \<in> R \<longrightarrow> d \<in> V \<union> T"
    and "(d, v) \<in> R\<^sup>*" and "v \<in> V"
  shows "d \<in> V \<or> (\<exists>t\<in>T. (d, t) \<in> R\<^sup>*)"
  using assms(2,3)
proof (induction rule: converse_rtrancl_induct)
  case base
  then show ?case by simp
next
  case (step y z)
  then have "z \<in> V \<or> (\<exists>t\<in>T. (z, t) \<in> R\<^sup>*)" by simp
  then show ?case
  proof
    assume "z \<in> V"
    with cl step.hyps(1) have "y \<in> V \<union> T" by blast
    then show ?thesis by auto
  next
    assume "\<exists>t\<in>T. (z, t) \<in> R\<^sup>*"
    then obtain t where "t \<in> T" "(z, t) \<in> R\<^sup>*" by blast
    with step.hyps(1) have "(y, t) \<in> R\<^sup>*" by (meson converse_rtrancl_into_rtrancl)
    with \<open>t \<in> T\<close> show ?thesis by blast
  qed
qed

lemma rtrancl_last_step:
  "(d, n) \<in> R\<^sup>* \<Longrightarrow> d \<noteq> n \<Longrightarrow> \<exists>t. (t, n) \<in> R \<and> (d, t) \<in> R\<^sup>*"
  by (erule rtranclE) auto

lemma set_traverse:
  "\<forall>v\<in>set visited. \<forall>d. (d, v) \<in> dependsOn g \<longrightarrow> d \<in> set visited \<union> set todo \<Longrightarrow>
   set (traverse g todo visited)
     = set visited \<union> {d. \<exists>t\<in>set todo. (d, t) \<in> (dependsOn g)\<^sup>*}"
proof (induction g todo visited rule: traverse.induct)
  case (1 g visited)
  then show ?case by simp
next
  case (2 g n todo visited)
  show ?case
  proof (cases "n \<in> set visited")
    case True
    with "2.prems"
    have inv: "\<forall>v\<in>set visited. \<forall>d. (d, v) \<in> dependsOn g \<longrightarrow> d \<in> set visited \<union> set todo"
      by auto
    have "set (traverse g todo visited)
        = set visited \<union> {d. \<exists>t\<in>set todo. (d, t) \<in> (dependsOn g)\<^sup>*}"
      using "2.IH"(1) [OF True inv] .
    moreover have "{d. (d, n) \<in> (dependsOn g)\<^sup>*}
        \<subseteq> set visited \<union> {d. \<exists>t\<in>set todo. (d, t) \<in> (dependsOn g)\<^sup>*}"
      using closed_rtrancl [OF inv _ True] by blast
    ultimately show ?thesis using True by auto
  next
    case False
    have inv: "\<forall>v\<in>set (visited @ [n]). \<forall>d. (d, v) \<in> dependsOn g \<longrightarrow>
        d \<in> set (visited @ [n]) \<union> set (directDependents g n @ todo)"
      using "2.prems" by (auto simp: directDependents_iff)
    have eq: "set (traverse g (directDependents g n @ todo) (visited @ [n]))
        = set (visited @ [n])
          \<union> {d. \<exists>t\<in>set (directDependents g n @ todo). (d, t) \<in> (dependsOn g)\<^sup>*}"
      using "2.IH"(2) [OF False inv] .
    have "{d. (d, n) \<in> (dependsOn g)\<^sup>*}
        = insert n {d. \<exists>t\<in>set (directDependents g n). (d, t) \<in> (dependsOn g)\<^sup>*}"
    proof (intro set_eqI iffI)
      fix d assume "d \<in> {d. (d, n) \<in> (dependsOn g)\<^sup>*}"
      then show "d \<in> insert n {d. \<exists>t\<in>set (directDependents g n). (d, t) \<in> (dependsOn g)\<^sup>*}"
        using rtrancl_last_step [of d n "dependsOn g"] directDependents_iff [of _ g n] by blast
    next
      fix d assume "d \<in> insert n {d. \<exists>t\<in>set (directDependents g n). (d, t) \<in> (dependsOn g)\<^sup>*}"
      then show "d \<in> {d. (d, n) \<in> (dependsOn g)\<^sup>*}"
        by (auto simp: directDependents_iff intro: rtrancl_into_rtrancl)
    qed
    then show ?thesis using False eq by auto
  qed
qed

lemma set_traverse_direct:
  "set (traverse g (directDependents g n) []) = {d. (d, n) \<in> (dependsOn g)\<^sup>+}"
proof -
  have "set (traverse g (directDependents g n) [])
      = {d. \<exists>t\<in>set (directDependents g n). (d, t) \<in> (dependsOn g)\<^sup>*}"
    using set_traverse [of "[]" g "directDependents g n"] by simp
  also have "\<dots> = {d. (d, n) \<in> (dependsOn g)\<^sup>+}"
    by (auto simp: directDependents_iff intro: rtrancl_into_trancl1 dest!: tranclD2)
  finally show ?thesis .
qed

lemma distinct_traverse: "distinct visited \<Longrightarrow> distinct (traverse g todo visited)"
  by (induction g todo visited rule: traverse.induct) auto

lemma set_getDependents_recursive_build:
  "set (getDependents g n (Some [Build]) True)
     = {d. fst d = Build \<and> (d, n) \<in> (dependsOn g)\<^sup>+}"
  by (auto simp: getDependents_def set_traverse_direct)

text \<open>
  Claim C4. On a change notification the handler that the build command hands to the
  watch loop uses the graph for one query: the dependants of the node of type build
  with the changed module's name, asked of the refreshed graph with
  \<open>recursive = true\<close>, of which it reads the build dependants; its tasks are those
  of the changed module and of these dependants, as far as they were requested. With
  the graph of the specification, the dependants it reads are exactly the modules of
  the build nodes from which the changed node can be reached along one or more
  dependency edges, each once: the full transitive closure of its dependents, filtered
  to the kind build.
\<close>

theorem changeHandler_queries_recursive_build_dependants:
  "changeHandler (BuildCommand_action factory getModules getDependants graph' argsModules
       optsForce optsWatch) newGraph module'
     = concat (map (\<lambda>m. factory \<lparr>graph = graph', module = m, force = True\<rparr>)
         (filter (\<lambda>m. name m \<in> name ` set (getModules graph' argsModules))
            (module' # build (getDependants newGraph Build (name module') True))))
   \<and> changeHandler (BuildCommand_action factory' getModules' ConfigGraph_getDependants g0
       argsModules optsForce optsWatch) g module'
     = concat (map (\<lambda>m. factory' \<lparr>graph = g0, module = m, force = True\<rparr>)
         (filter (\<lambda>m. name m \<in> name ` set (getModules' g0 argsModules))
            (module' # map toModule
               (getDependents g (Build, name module') (Some [Build]) True))))
   \<and> set (getDependents g (Build, name module') (Some [Build]) True)
       = {d. fst d = Build \<and> (d, (Build, name module')) \<in> (dependsOn g)\<^sup>+}
   \<and> distinct (getDependents g (Build, name module') (Some [Build]) True)"
proof (intro conjI)
  show "changeHandler (BuildCommand_action factory getModules getDependants graph' argsModules
       optsForce optsWatch) newGraph module'
     = concat (map (\<lambda>m. factory \<lparr>graph = graph', module = m, force = True\<rparr>)
         (filter (\<lambda>m. name m \<in> name ` set (getModules graph' argsModules))
            (module' # build (getDependants newGraph Build (name module') True))))"
    by (simp add: changeHandler_of_action BuildCommand_changeHandler_def changeHandlerCalls_def
        Let_def o_def)
  show "changeHandler (BuildCommand_action factory' getModules' ConfigGraph_getDependants g0
       argsModules optsForce optsWatch) g module'
     = concat (map (\<lambda>m. factory' \<lparr>graph = g0, module = m, force = True\<rparr>)
         (filter (\<lambda>m. name m \<in> name ` set (getModules' g0 argsModules))
            (module' # map toModule
               (getDependents g (Build, name module') (Some [Build]) True))))"
    by (simp add: changeHandler_of_action BuildCommand_changeHandler_def changeHandlerCalls_def
        ConfigGraph_getDependants_def Let_def o_def)
  show "set (getDependents g (Build, name module') (Some [Build]) True)
       = {d. fst d = Build \<and> (d, (Build, name module')) \<in> (dependsOn g)\<^sup>+}"
    by (rule set_getDependents_recursive_build)
  show "distinct (getDependents g (Build, name module') (Some [Build]) True)"
    by (simp add: getDependents_def distinct_traverse)
qed

text \<open>
  Claim C2, as amended. The build of \<open>A\<close>, \<open>B\<close> and \<open>C\<close> was requested, \<open>A\<close>
  depends on \<open>B\<close> and \<open>B\<close> on \<open>C\<close>. A change of \<open>C\<close> makes the handler return
  the tasks of three factory calls, for \<open>C\<close>, for \<open>B\<close> and for \<open>A\<close>, one each and
  all with \<open>force = true\<close>: \<open>A\<close> is rebuilt as well, because it is a recursive
  dependant of \<open>C\<close>.
\<close>

theorem change_of_C_rebuilds_C_B_A:
  "changeHandler (BuildCommand_action factory ConfigGraph_getModules ConfigGraph_getDependants
       graphABC (Some [''A'', ''B'', ''C'']) optsForce True) graphABC \<lparr>name = ''C''\<rparr>
     = factory \<lparr>graph = graphABC, module = \<lparr>name = ''C''\<rparr>, force = True\<rparr>
       @ factory \<lparr>graph = graphABC, module = \<lparr>name = ''B''\<rparr>, force = True\<rparr>
       @ factory \<lparr>graph = graphABC, module = \<lparr>name = ''A''\<rparr>, force = True\<rparr>"
  by (simp add: changeHandler_of_action BuildCommand_changeHandler_def changeHandlerCalls_def
      ConfigGraph_getModules_def ConfigGraph_getDependants_def getNodes_def getDependents_def
      directDependents_def toModule_def graphABC_def)

text \<open>
  Claim C2 as stated fails: after the change of \<open>C\<close> a forced task is built for \<open>A\<close>,
  which is not itself changed and depends on \<open>C\<close> only through \<open>B\<close>.
\<close>

theorem change_of_C_builds_forced_task_for_A:
  "\<lparr>graph = graphABC, module = \<lparr>name = ''A''\<rparr>, force = True\<rparr>
     \<in> set (changeHandlerCalls ConfigGraph_getDependants graphABC
              (map name (ConfigGraph_getModules graphABC (Some [''A'', ''B'', ''C''])))
              graphABC \<lparr>name = ''C''\<rparr>)"
  by (simp add: changeHandlerCalls_def
      ConfigGraph_getModules_def ConfigGraph_getDependants_def getNodes_def getDependents_def
      directDependents_def toModule_def graphABC_def)


section \<open>Theorems: the execution engine\<close>

subsection \<open>The pending set\<close>

lemma keys_submit: "set (map taskKey (submit t us)) = insert (taskKey t) (set (map taskKey us))"
  by (induction us) auto

lemma distinct_submit: "distinct (map taskKey us) \<Longrightarrow> distinct (map taskKey (submit t us))"
proof (induction us)
  case Nil
  then show ?case by simp
next
  case (Cons u us)
  have "taskKey u \<noteq> taskKey t \<Longrightarrow> taskKey u \<notin> set (map taskKey (submit t us))"
    using Cons.prems unfolding keys_submit by auto
  with Cons show ?case by auto
qed

lemma submit_subset: "set (submit t us) \<subseteq> insert t (set us)"
  by (induction us) auto

lemma foldl_submit:
  "distinct (map taskKey acc) \<Longrightarrow>
     distinct (map taskKey (foldl (\<lambda>acc t. submit t acc) acc ts))
     \<and> set (map taskKey (foldl (\<lambda>acc t. submit t acc) acc ts))
         = set (map taskKey acc) \<union> set (map taskKey ts)
     \<and> set (foldl (\<lambda>acc t. submit t acc) acc ts) \<subseteq> set acc \<union> set ts"
proof (induction ts arbitrary: acc)
  case Nil
  then show ?case by simp
next
  case (Cons t ts)
  have d: "distinct (map taskKey (submit t acc))" using Cons.prems by (rule distinct_submit)
  from Cons.IH [OF d] show ?case
    using keys_submit [of t acc] submit_subset [of t acc] by auto
qed

lemma dedupByKey:
  "distinct (map taskKey (dedupByKey ts))"
  "taskKey ` set (dedupByKey ts) = taskKey ` set ts"
  "set (dedupByKey ts) \<subseteq> set ts"
  using foldl_submit [of "[]" ts] by (simp_all add: dedupByKey_def)

lemma tasks_seed: "tasks (seed ts) = dedupByKey ts"
  by (simp add: seed_def)

lemma map_of_Pending:
  "map_of (map (\<lambda>t. (taskKey t, Pending :: 'o TaskStatus)) us) k
     = (if k \<in> taskKey ` set us then Some Pending else None)"
  by (induction us) auto

lemma state_seed:
  "state (seed ts) k = (if k \<in> taskKey ` set ts then Some Pending else None)"
proof -
  have "state (seed ts) k = (if k \<in> taskKey ` set (dedupByKey ts) then Some Pending else None)"
    by (simp add: seed_def map_of_Pending)
  then show ?thesis by (simp only: dedupByKey(2))
qed

lemma logs_seed: "executions (seed ts) = []" "completions (seed ts) = []"
  by (simp_all add: seed_def)

subsection \<open>The invariant\<close>

lemma depFailed_iff: "depFailed eng t \<longleftrightarrow> (\<exists>d\<in>set (dependencyTaskKeys t). depFailure eng d)"
  by (simp add: depFailed_def depFailure_def list_ex_iff)

lemma depsRecorded_not_failed:
  "depsRecorded eng t \<Longrightarrow> \<not> depFailed eng t \<Longrightarrow> d \<in> set (dependencyTaskKeys t)
     \<Longrightarrow> depSucceeded eng d"
  by (auto simp: depsRecorded_def depFailed_def depSucceeded_def list_all_iff list_ex_iff
      split: option.splits TaskStatus.splits TaskResult.splits)

lemma engineInv_seed:
  fixes execute :: "Task \<Rightarrow> bool \<times> 'o"
  shows "engineInv execute (seed ts)"
proof -
  let ?e = "seed ts :: 'o Engine"
  have "dom (state ?e) = taskKey ` set (tasks ?e)"
    unfolding tasks_seed dedupByKey(2) by (auto simp: state_seed dom_def)
  moreover have "\<not> executed ?e k" "\<not> completed ?e k" for k
    by (simp_all add: executed_def completed_def state_seed)
  moreover have "state ?e k \<noteq> Some (Done r)" for k r
    by (simp add: state_seed)
  ultimately show ?thesis unfolding engineInv_def using dedupByKey(1) [of ts]
    by (simp add: logs_seed tasks_seed)
qed

lemma inj_taskKey:
  "distinct (map taskKey ts) \<Longrightarrow> t \<in> set ts \<Longrightarrow> u \<in> set ts \<Longrightarrow> taskKey t = taskKey u
     \<Longrightarrow> t = u"
  by (meson distinct_map inj_onD)

lemma engineInvD:
  assumes "engineInv execute eng"
  shows "distinct (map taskKey (tasks eng))"
    and "dom (state eng) = taskKey ` set (tasks eng)"
    and "set (executions eng) \<subseteq> set (tasks eng)"
    and "distinct (executions eng)"
    and "\<And>t. t \<in> set (tasks eng) \<Longrightarrow> t \<in> set (executions eng) \<longleftrightarrow> executed eng (taskKey t)"
    and "set (completions eng) \<subseteq> set (tasks eng)"
    and "distinct (completions eng)"
    and "\<And>t. t \<in> set (tasks eng) \<Longrightarrow> t \<in> set (completions eng) \<longleftrightarrow> completed eng (taskKey t)"
    and "\<And>t d. t \<in> set (tasks eng) \<Longrightarrow> executed eng (taskKey t)
          \<Longrightarrow> d \<in> set (dependencyTaskKeys t) \<Longrightarrow> depSucceeded eng d"
    and "\<And>t. t \<in> set (tasks eng)
          \<Longrightarrow> state eng (taskKey t) = Some (Done SkippedDueToDependencyFailure)
          \<Longrightarrow> \<exists>d\<in>set (dependencyTaskKeys t). depFailure eng d"
    and "\<And>t r. t \<in> set (tasks eng) \<Longrightarrow> state eng (taskKey t) = Some (Done r)
          \<Longrightarrow> r = SkippedDueToDependencyFailure \<or> r = resultOf (execute t)"
  using assms unfolding engineInv_def by blast+

text \<open>An event rewrites the state of one key, which was pending or running.\<close>

lemma engineInv_update:
  fixes eng eng' :: "'o Engine"
  assumes inv: "engineInv execute eng"
    and t: "t \<in> set (tasks eng)"
    and old: "state eng (taskKey t) = Some Pending \<or> state eng (taskKey t) = Some Running"
    and tk: "tasks eng' = tasks eng"
    and st: "state eng' = (state eng)(taskKey t \<mapsto> v)"
    and exs: "set (executions eng') \<subseteq> set (tasks eng)" "distinct (executions eng')"
       "\<And>u. u \<in> set (tasks eng) \<Longrightarrow> u \<noteq> t
          \<Longrightarrow> u \<in> set (executions eng') \<longleftrightarrow> u \<in> set (executions eng)"
       "t \<in> set (executions eng') \<longleftrightarrow> executed eng' (taskKey t)"
    and cms: "set (completions eng') \<subseteq> set (tasks eng)" "distinct (completions eng')"
       "\<And>u. u \<in> set (tasks eng) \<Longrightarrow> u \<noteq> t
          \<Longrightarrow> u \<in> set (completions eng') \<longleftrightarrow> u \<in> set (completions eng)"
       "t \<in> set (completions eng') \<longleftrightarrow> completed eng' (taskKey t)"
    and new_exec: "executed eng' (taskKey t)
          \<Longrightarrow> \<forall>d\<in>set (dependencyTaskKeys t). depSucceeded eng d"
    and new_skip: "v = Done SkippedDueToDependencyFailure
          \<Longrightarrow> \<exists>d\<in>set (dependencyTaskKeys t). depFailure eng d"
    and new_done: "\<And>r. v = Done r
          \<Longrightarrow> r = SkippedDueToDependencyFailure \<or> r = resultOf (execute t)"
  shows "engineInv execute eng'"
proof -
  note I = engineInvD [OF inv]
  have same: "taskKey u = taskKey t \<longleftrightarrow> u = t" if "u \<in> set (tasks eng)" for u
    using inj_taskKey [OF I(1) that t] by auto
  have other: "state eng' k = state eng k" if "k \<noteq> taskKey t" for k
    using that by (simp add: st)
  have here: "state eng' (taskKey t) = Some v" by (simp add: st)
  have ds: "depSucceeded eng' d" if "depSucceeded eng d" for d
  proof -
    from that old have "d \<noteq> taskKey t" by (auto simp: depSucceeded_def)
    with that show ?thesis by (simp add: depSucceeded_def other)
  qed
  have df: "depFailure eng' d" if "depFailure eng d" for d
  proof -
    from that old have "d \<noteq> taskKey t" by (auto simp: depFailure_def)
    with that show ?thesis by (simp add: depFailure_def other)
  qed
  have ex_other: "executed eng' (taskKey u) \<longleftrightarrow> executed eng (taskKey u)"
    if "u \<in> set (tasks eng)" "u \<noteq> t" for u
    using same [OF that(1)] that(2) by (simp add: executed_def other)
  have co_other: "completed eng' (taskKey u) \<longleftrightarrow> completed eng (taskKey u)"
    if "u \<in> set (tasks eng)" "u \<noteq> t" for u
    using same [OF that(1)] that(2) by (simp add: completed_def other)
  have c1: "distinct (map taskKey (tasks eng'))" using I(1) by (simp add: tk)
  have c2: "dom (state eng') = taskKey ` set (tasks eng')"
    using I(2) t by (auto simp: tk st)
  have c5: "\<forall>u\<in>set (tasks eng'). u \<in> set (executions eng') \<longleftrightarrow> executed eng' (taskKey u)"
  proof
    fix u assume "u \<in> set (tasks eng')"
    then have u: "u \<in> set (tasks eng)" by (simp add: tk)
    show "u \<in> set (executions eng') \<longleftrightarrow> executed eng' (taskKey u)"
    proof (cases "u = t")
      case True
      then show ?thesis using exs(4) by simp
    next
      case False
      then show ?thesis using exs(3) [OF u False] I(5) [OF u] ex_other [OF u False] by simp
    qed
  qed
  have c8: "\<forall>u\<in>set (tasks eng'). u \<in> set (completions eng') \<longleftrightarrow> completed eng' (taskKey u)"
  proof
    fix u assume "u \<in> set (tasks eng')"
    then have u: "u \<in> set (tasks eng)" by (simp add: tk)
    show "u \<in> set (completions eng') \<longleftrightarrow> completed eng' (taskKey u)"
    proof (cases "u = t")
      case True
      then show ?thesis using cms(4) by simp
    next
      case False
      then show ?thesis using cms(3) [OF u False] I(8) [OF u] co_other [OF u False] by simp
    qed
  qed
  have c9: "\<forall>u\<in>set (tasks eng'). executed eng' (taskKey u)
      \<longrightarrow> (\<forall>d\<in>set (dependencyTaskKeys u). depSucceeded eng' d)"
  proof (intro ballI impI)
    fix u d assume "u \<in> set (tasks eng')" and e: "executed eng' (taskKey u)"
      and d: "d \<in> set (dependencyTaskKeys u)"
    then have u: "u \<in> set (tasks eng)" by (simp add: tk)
    show "depSucceeded eng' d"
    proof (cases "u = t")
      case True
      then show ?thesis using new_exec e d ds by blast
    next
      case False
      then have "executed eng (taskKey u)" using ex_other [OF u False] e by simp
      then show ?thesis using I(9) [OF u _ d] ds by blast
    qed
  qed
  have c10: "\<forall>u\<in>set (tasks eng').
      state eng' (taskKey u) = Some (Done SkippedDueToDependencyFailure)
      \<longrightarrow> (\<exists>d\<in>set (dependencyTaskKeys u). depFailure eng' d)"
  proof (intro ballI impI)
    fix u assume "u \<in> set (tasks eng')"
      and s: "state eng' (taskKey u) = Some (Done SkippedDueToDependencyFailure)"
    then have u: "u \<in> set (tasks eng)" by (simp add: tk)
    show "\<exists>d\<in>set (dependencyTaskKeys u). depFailure eng' d"
    proof (cases "u = t")
      case True
      with s here have "v = Done SkippedDueToDependencyFailure" by simp
      then show ?thesis using new_skip df True by blast
    next
      case False
      then have "state eng (taskKey u) = Some (Done SkippedDueToDependencyFailure)"
        using s same [OF u] other by metis
      then show ?thesis using I(10) [OF u] df by blast
    qed
  qed
  have c11: "\<forall>u\<in>set (tasks eng'). \<forall>r. state eng' (taskKey u) = Some (Done r)
      \<longrightarrow> r = SkippedDueToDependencyFailure \<or> r = resultOf (execute u)"
  proof (intro ballI allI impI)
    fix u r assume "u \<in> set (tasks eng')" and s: "state eng' (taskKey u) = Some (Done r)"
    then have u: "u \<in> set (tasks eng)" by (simp add: tk)
    show "r = SkippedDueToDependencyFailure \<or> r = resultOf (execute u)"
    proof (cases "u = t")
      case True
      with s here have "v = Done r" by simp
      then show ?thesis using new_done True by blast
    next
      case False
      then have "state eng (taskKey u) = Some (Done r)"
        using s same [OF u] other by metis
      then show ?thesis using I(11) [OF u] by blast
    qed
  qed
  show ?thesis
    unfolding engineInv_def using c1 c2 exs(1,2) c5 cms(1,2) c8 c9 c10 c11 by (simp add: tk)
qed

lemma engineInv_applyEvent:
  assumes inv: "engineInv execute eng" and en: "enabled limit eng e"
  shows "engineInv execute (applyEvent execute eng e)"
proof (cases e)
  case (Start t)
  note I = engineInvD [OF inv]
  from en Start have t: "t \<in> set (tasks eng)" and p: "state eng (taskKey t) = Some Pending"
    and deps: "\<forall>d\<in>set (dependencyTaskKeys t). depSucceeded eng d"
    using depsRecorded_not_failed [of eng t]
    by (auto simp: isPending_def split: option.splits TaskStatus.splits)
  have tnot: "t \<notin> set (executions eng)" "t \<notin> set (completions eng)"
    using I(5) [OF t] I(8) [OF t] p by (auto simp: executed_def completed_def)
  show ?thesis unfolding Start
  proof (rule engineInv_update [OF inv t, where v = Running])
    show "set (executions (applyEvent execute eng (Start t))) \<subseteq> set (tasks eng)"
      using I(3) t by simp
    show "distinct (executions (applyEvent execute eng (Start t)))" using I(4) tnot by simp
    show "distinct (completions (applyEvent execute eng (Start t)))" using I(7) by simp
    show "set (completions (applyEvent execute eng (Start t))) \<subseteq> set (tasks eng)"
      using I(6) by simp
    show "t \<in> set (completions (applyEvent execute eng (Start t)))
        \<longleftrightarrow> completed (applyEvent execute eng (Start t)) (taskKey t)"
      using tnot by (simp add: completed_def)
  qed (use p deps in \<open>auto simp: executed_def\<close>)
next
  case (Finish t)
  note I = engineInvD [OF inv]
  from en Finish have t: "t \<in> set (tasks eng)" and p: "state eng (taskKey t) = Some Running"
    by (auto simp: isRunning_def split: option.splits TaskStatus.splits)
  have tin: "t \<in> set (executions eng)" and tnot: "t \<notin> set (completions eng)"
    using I(5) [OF t] I(8) [OF t] p by (auto simp: executed_def completed_def)
  have deps: "\<forall>d\<in>set (dependencyTaskKeys t). depSucceeded eng d"
    using I(9) [OF t] p by (auto simp: executed_def)
  show ?thesis unfolding Finish
  proof (rule engineInv_update [OF inv t, where v = "Done (resultOf (execute t))"])
    show "set (executions (applyEvent execute eng (Finish t))) \<subseteq> set (tasks eng)"
      using I(3) by simp
    show "distinct (executions (applyEvent execute eng (Finish t)))" using I(4) by simp
    show "distinct (completions (applyEvent execute eng (Finish t)))" using I(7) tnot by simp
    show "set (completions (applyEvent execute eng (Finish t))) \<subseteq> set (tasks eng)"
      using I(6) t by simp
    show "t \<in> set (completions (applyEvent execute eng (Finish t)))
        \<longleftrightarrow> completed (applyEvent execute eng (Finish t)) (taskKey t)"
      by (simp add: completed_def resultOf_def)
    show "t \<in> set (executions (applyEvent execute eng (Finish t)))
        \<longleftrightarrow> executed (applyEvent execute eng (Finish t)) (taskKey t)"
      using tin by (simp add: executed_def resultOf_def)
    show "Done (resultOf (execute t)) = Done SkippedDueToDependencyFailure
        \<Longrightarrow> \<exists>d\<in>set (dependencyTaskKeys t). depFailure eng d"
      by (simp add: resultOf_def split: if_splits)
  qed (use p deps in \<open>auto simp: executed_def\<close>)
next
  case (Skip t)
  note I = engineInvD [OF inv]
  from en Skip have t: "t \<in> set (tasks eng)" and p: "state eng (taskKey t) = Some Pending"
    and f: "\<exists>d\<in>set (dependencyTaskKeys t). depFailure eng d"
    by (auto simp: isPending_def depFailed_iff split: option.splits TaskStatus.splits)
  have tnot: "t \<notin> set (executions eng)" "t \<notin> set (completions eng)"
    using I(5) [OF t] I(8) [OF t] p by (auto simp: executed_def completed_def)
  show ?thesis unfolding Skip
  proof (rule engineInv_update [OF inv t, where v = "Done SkippedDueToDependencyFailure"])
    show "set (executions (applyEvent execute eng (Skip t))) \<subseteq> set (tasks eng)"
      using I(3) by simp
    show "distinct (executions (applyEvent execute eng (Skip t)))" using I(4) by simp
    show "distinct (completions (applyEvent execute eng (Skip t)))" using I(7) by simp
    show "set (completions (applyEvent execute eng (Skip t))) \<subseteq> set (tasks eng)"
      using I(6) by simp
    show "t \<in> set (completions (applyEvent execute eng (Skip t)))
        \<longleftrightarrow> completed (applyEvent execute eng (Skip t)) (taskKey t)"
      using tnot by (simp add: completed_def)
    show "t \<in> set (executions (applyEvent execute eng (Skip t)))
        \<longleftrightarrow> executed (applyEvent execute eng (Skip t)) (taskKey t)"
      using tnot by (simp add: executed_def)
  qed (use p f in \<open>auto simp: executed_def\<close>)
qed

lemma engineInv_runEvents:
  "engineInv execute eng \<Longrightarrow> runEvents execute limit eng evs = Some eng'
     \<Longrightarrow> engineInv execute eng'"
proof (induction evs arbitrary: eng)
  case Nil
  then show ?case by simp
next
  case (Cons e evs)
  then show ?case using engineInv_applyEvent [of execute eng limit e]
    by (auto split: if_splits)
qed

subsection \<open>The round\<close>

text \<open>The round of \<open>processLoop\<close> is one of the sequences of enabled events, and it
  stops only when no event is enabled.\<close>

lemma processLoop_runEvents:
  "\<exists>evs. runEvents execute limit eng evs = Some (processLoop pick execute limit eng)"
proof (induction pick execute limit eng rule: processLoop.induct)
  case (1 pick execute limit eng)
  show ?case
  proof (cases "enabledEvents limit eng")
    case Nil
    then have "processLoop pick execute limit eng = eng" by simp
    then have "runEvents execute limit eng [] = Some (processLoop pick execute limit eng)"
      by simp
    then show ?thesis by blast
  next
    case (Cons e es)
    define ev where "ev = (if pick eng (e # es) \<in> set (e # es) then pick eng (e # es) else e)"
    have "ev \<in> set (enabledEvents limit eng)" using Cons by (auto simp: ev_def)
    then have en: "enabled limit eng ev" by (rule enabledEvents_enabled)
    have loop: "processLoop pick execute limit eng
        = processLoop pick execute limit (applyEvent execute eng ev)"
      using Cons by (simp add: ev_def Let_def)
    from "1.IH" [OF Cons refl ev_def]
    obtain evs where "runEvents execute limit (applyEvent execute eng ev) evs
        = Some (processLoop pick execute limit (applyEvent execute eng ev))" by blast
    then have "runEvents execute limit eng (ev # evs)
        = Some (processLoop pick execute limit eng)"
      using en loop by simp
    then show ?thesis by blast
  qed
qed

lemma processLoop_quiescent:
  "enabledEvents limit (processLoop pick execute limit eng) = []"
proof (induction pick execute limit eng rule: processLoop.induct)
  case (1 pick execute limit eng)
  show ?case
  proof (cases "enabledEvents limit eng")
    case Nil
    then show ?thesis by simp
  next
    case (Cons e es)
    define ev where "ev = (if pick eng (e # es) \<in> set (e # es) then pick eng (e # es) else e)"
    have loop: "processLoop pick execute limit eng
        = processLoop pick execute limit (applyEvent execute eng ev)"
      using Cons by (simp add: ev_def Let_def)
    from "1.IH" [OF Cons refl ev_def] show ?thesis unfolding loop .
  qed
qed


lemma tasks_runEvents:
  "runEvents execute limit eng evs = Some eng' \<Longrightarrow> tasks eng' = tasks eng"
  by (induction evs arbitrary: eng) (auto simp: tasks_applyEvent split: if_splits)

lemma reachable_inv:
  "runEvents execute limit (seed ts) evs = Some eng \<Longrightarrow> engineInv execute eng"
  using engineInv_seed engineInv_runEvents by blast

lemma processRound_inv: "engineInv execute (processRound pick execute limit ts)"
  using processLoop_runEvents [of execute limit "seed ts" pick] reachable_inv
  unfolding processRound_def by metis

lemma tasks_processRound: "tasks (processRound pick execute limit ts) = dedupByKey ts"
  using processLoop_runEvents [of execute limit "seed ts" pick] tasks_runEvents tasks_seed
  unfolding processRound_def by metis

lemma enabled_in_enabledEvents: "enabled limit eng e \<Longrightarrow> e \<in> set (enabledEvents limit eng)"
  by (cases e) (auto simp: enabledEvents_def)

lemma count_list_distinct: "distinct xs \<Longrightarrow> count_list xs k = (if k \<in> set xs then 1 else 0)"
  by (induction xs) auto

lemma distinct_keys_subset:
  "distinct (map taskKey ts) \<Longrightarrow> set us \<subseteq> set ts \<Longrightarrow> distinct us \<Longrightarrow> distinct (map taskKey us)"
  by (metis distinct_map inj_on_subset)

lemma executed_iff:
  assumes "engineInv execute eng"
  shows "k \<in> taskKey ` set (executions eng) \<longleftrightarrow> executed eng k"
proof
  note I = engineInvD [OF assms]
  show "k \<in> taskKey ` set (executions eng) \<Longrightarrow> executed eng k" using I(3) I(5) by auto
  show "executed eng k \<Longrightarrow> k \<in> taskKey ` set (executions eng)"
  proof -
    assume e: "executed eng k"
    then have "k \<in> dom (state eng)" by (auto simp: executed_def split: option.splits)
    then obtain t where "t \<in> set (tasks eng)" "taskKey t = k" using I(2) by auto
    then show ?thesis using I(5) e by auto
  qed
qed


lemma executionCount_eq:
  assumes "engineInv execute eng"
  shows "executionCount eng k = (if executed eng k then 1 else 0)"
proof -
  note I = engineInvD [OF assms]
  have "distinct (map taskKey (executions eng))" using distinct_keys_subset [OF I(1) I(3) I(4)] .
  then show ?thesis using executed_iff [OF assms, of k]
    by (simp add: executionCount_def count_list_distinct)
qed




lemma executed_needs_success:
  assumes inv: "engineInv execute eng"
    and dep: "(kA, kB) \<in> dependsOnKey (tasks eng)" and nb: "\<not> depSucceeded eng kB"
  shows "\<not> executed eng kA"
  using engineInvD(9) [OF inv] dep nb by (auto simp: dependsOnKey_def)

lemma not_executed_transitive:
  assumes inv: "engineInv execute eng"
    and dep: "(kA, kB) \<in> (dependsOnKey (tasks eng))\<^sup>+" and nb: "\<not> depSucceeded eng kB"
  shows "\<not> executed eng kA"
  using dep
proof (induction rule: converse_trancl_induct)
  case (base y)
  then show ?case using executed_needs_success [OF inv _ nb] by blast
next
  case (step y z)
  have "\<not> depSucceeded eng z" using step.IH
    by (auto simp: depSucceeded_def executed_def split: option.splits TaskStatus.splits TaskResult.splits)
  then show ?case using executed_needs_success [OF inv step.hyps(1)] by blast
qed

lemma skipped_when_quiescent:
  assumes inv: "engineInv execute eng" and q: "enabledEvents limit eng = []"
    and dep: "(kA, kB) \<in> dependsOnKey (tasks eng)" and f: "depFailure eng kB"
  shows "state eng kA = Some (Done SkippedDueToDependencyFailure)"
proof -
  from dep obtain t where t: "t \<in> set (tasks eng)" "taskKey t = kA" "kB \<in> set (dependencyTaskKeys t)"
    by (auto simp: dependsOnKey_def)
  have nb: "\<not> depSucceeded eng kB" using f
    by (auto simp: depSucceeded_def depFailure_def split: option.splits TaskStatus.splits TaskResult.splits)
  have ne: "\<not> executed eng kA" using executed_needs_success [OF inv dep nb] .
  have "kA \<in> dom (state eng)" using engineInvD(2) [OF inv] t by auto
  then obtain s where s: "state eng kA = Some s" by auto
  have "\<not> enabled limit eng (Skip t)" using enabled_in_enabledEvents q by fastforce
  then have "s \<noteq> Pending" using t f s by (auto simp: isPending_def depFailed_iff)
  then show ?thesis using ne s
    by (cases s; simp add: executed_def split: TaskResult.splits)
qed

lemma skipped_transitive:
  assumes inv: "engineInv execute eng" and q: "enabledEvents limit eng = []"
    and dep: "(kA, kB) \<in> (dependsOnKey (tasks eng))\<^sup>+" and f: "depFailure eng kB"
  shows "state eng kA = Some (Done SkippedDueToDependencyFailure)"
  using dep
proof (induction rule: converse_trancl_induct)
  case (base y)
  then show ?case using skipped_when_quiescent [OF inv q _ f] by blast
next
  case (step y z)
  have "depFailure eng z" using step.IH by (simp add: depFailure_def)
  then show ?case using skipped_when_quiescent [OF inv q step.hyps(1)] by blast
qed




text \<open>
  The scenarios of the specification on the chain in which \<open>A\<close> depends on \<open>B\<close>
  and \<open>B\<close> on \<open>C\<close>: the executions are in the order \<open>C\<close>, \<open>B\<close>, \<open>A\<close>; when
  \<open>C\<close> fails, \<open>B\<close> and \<open>A\<close> are skipped.
\<close>

lemma scenario_chain:
  "map targetName (executions (processRound pickFirst allSucceed 1 [taskA, taskB, taskC]))
     = [''C'', ''B'', ''A'']
   \<and> map (process pickFirst failC 1 [taskA, taskB, taskC])
       [taskKey taskC, taskKey taskB, taskKey taskA]
     = [Some (Failed ''C''), Some SkippedDueToDependencyFailure,
        Some SkippedDueToDependencyFailure]"
  by code_simp

subsection \<open>Failure propagation and deduplication\<close>

lemmas engine_eval =
  processRound_def process_def results_def seed_def dedupByKey_def enabledEvents_def
  isPending_def isRunning_def depsRecorded_def depFailed_def runningCount_def resultOf_def
  taskKey_def taskA_def taskB_def taskC_def Let_def

text \<open>
  Claim C7. At every instant of a round, under every schedule: once the execution of a
  task \<open>B\<close> has failed, the hook has not been called for any task \<open>A\<close> of the round
  that depends on \<open>B\<close> through one or more dependency keys. When the round is over,
  every such \<open>A\<close> is recorded as skipped because of a dependency failure, and the hook
  was never called for it.
\<close>

theorem failure_skips_transitive_dependants:
  "(runEvents execute limit (seed ts) evs = Some eng \<and> results eng kB = Some (Failed out)
      \<and> (kA, kB) \<in> (dependsOnKey (dedupByKey ts))\<^sup>+
    \<longrightarrow> executionCount eng kA = 0)
   \<and> (process pick execute limit ts kB = Some (Failed out)
      \<and> (kA, kB) \<in> (dependsOnKey (dedupByKey ts))\<^sup>+
    \<longrightarrow> process pick execute limit ts kA = Some SkippedDueToDependencyFailure
        \<and> executionCount (processRound pick execute limit ts) kA = 0)"
proof (intro conjI impI)
  assume a: "runEvents execute limit (seed ts) evs = Some eng \<and> results eng kB = Some (Failed out)
      \<and> (kA, kB) \<in> (dependsOnKey (dedupByKey ts))\<^sup>+"
  then have inv: "engineInv execute eng" using reachable_inv by blast
  have tk: "tasks eng = dedupByKey ts" using a tasks_runEvents tasks_seed by metis
  have "\<not> depSucceeded eng kB" using a
    by (auto simp: results_def depSucceeded_def split: option.splits TaskStatus.splits)
  then have "\<not> executed eng kA" using not_executed_transitive [OF inv] a tk by metis
  then show "executionCount eng kA = 0" by (simp add: executionCount_eq [OF inv])
next
  let ?f = "processRound pick execute limit ts"
  assume a: "process pick execute limit ts kB = Some (Failed out)
      \<and> (kA, kB) \<in> (dependsOnKey (dedupByKey ts))\<^sup>+"
  have inv: "engineInv execute ?f" by (rule processRound_inv)
  have q: "enabledEvents limit ?f = []" unfolding processRound_def by (rule processLoop_quiescent)
  have tk: "tasks ?f = dedupByKey ts" by (rule tasks_processRound)
  have f: "depFailure ?f kB" using a
    by (auto simp: process_def results_def depFailure_def split: option.splits TaskStatus.splits)
  have s: "state ?f kA = Some (Done SkippedDueToDependencyFailure)"
    using skipped_transitive [OF inv q _ f] a tk by metis
  then have "\<not> executed ?f kA" by (simp add: executed_def)
  then have "executionCount ?f kA = 0" by (simp add: executionCount_eq [OF inv])
  moreover have "process pick execute limit ts kA = Some SkippedDueToDependencyFailure"
    using s by (simp add: process_def results_def)
  ultimately show "process pick execute limit ts kA = Some SkippedDueToDependencyFailure"
    "executionCount ?f kA = 0" by simp_all
qed

text \<open>
  The chain in which \<open>A\<close> depends on \<open>B\<close> and \<open>B\<close> on \<open>C\<close>, with a hook under
  which \<open>C\<close> fails: \<open>A\<close>, two dependencies away from \<open>C\<close>, is skipped and never
  executed.
\<close>

theorem failure_skips_transitive_dependants_witness:
  "runEvents failC 2 (seed [taskA, taskB, taskC]) [Start taskC, Finish taskC]
     = Some afterFailureOfC
   \<and> results afterFailureOfC (taskKey taskC) = Some (Failed ''C'')
   \<and> process pickFirst failC 2 [taskA, taskB, taskC] (taskKey taskC) = Some (Failed ''C'')
   \<and> (taskKey taskA, taskKey taskC) \<in> (dependsOnKey (dedupByKey [taskA, taskB, taskC]))\<^sup>+
   \<and> executionCount afterFailureOfC (taskKey taskA) = 0
   \<and> process pickFirst failC 2 [taskA, taskB, taskC] (taskKey taskA)
       = Some SkippedDueToDependencyFailure
   \<and> executionCount (processRound pickFirst failC 2 [taskA, taskB, taskC]) (taskKey taskA) = 0"
proof -
  have run: "runEvents failC 2 (seed [taskA, taskB, taskC]) [Start taskC, Finish taskC]
      = Some afterFailureOfC"
    by (simp add: afterFailureOfC_def engine_eval failC_def)
  have res: "results afterFailureOfC (taskKey taskC) = Some (Failed ''C'')"
    by (simp add: afterFailureOfC_def engine_eval failC_def)
  have fin: "process pickFirst failC 2 [taskA, taskB, taskC] (taskKey taskC)
      = Some (Failed ''C'')"
    by code_simp
  have "(taskKey taskA, taskKey taskB) \<in> dependsOnKey (dedupByKey [taskA, taskB, taskC])"
    unfolding dependsOnKey_def
    by (rule CollectI, rule exI [of _ taskA], rule exI [of _ "taskKey taskB"])
      (simp add: engine_eval)
  moreover have "(taskKey taskB, taskKey taskC) \<in> dependsOnKey (dedupByKey [taskA, taskB, taskC])"
    unfolding dependsOnKey_def
    by (rule CollectI, rule exI [of _ taskB], rule exI [of _ "taskKey taskC"])
      (simp add: engine_eval)
  ultimately have dep: "(taskKey taskA, taskKey taskC)
      \<in> (dependsOnKey (dedupByKey [taskA, taskB, taskC]))\<^sup>+"
    by (rule trancl_into_trancl [OF r_into_trancl])
  show ?thesis
    using failure_skips_transitive_dependants [of failC 2 "[taskA, taskB, taskC]"
        "[Start taskC, Finish taskC]" afterFailureOfC "taskKey taskC" "''C''" "taskKey taskA"
        pickFirst]
      run res fin dep
    by blast
qed






end
